theory Spec2Isabelle
  imports Complex_Main "HOL-Library.Multiset" "HOL-Library.Sublist"
begin

section \<open>The OPD token allocation engine\<close>

text \<open>
  A shallow embedding of \<^verbatim>\<open>src/models/index.js\<close> (Doctor, Slot, Token, TOKEN_SOURCES,
  TOKEN_STATUS) and \<^verbatim>\<open>src/services/TokenAllocationEngine.js\<close>.

  Token objects are shared by reference between a slot's \<^verbatim>\<open>tokens\<close> array, the engine's
  \<^verbatim>\<open>waitingQueue\<close> array and the engine's \<^verbatim>\<open>tokens\<close> registry, and two of their
  fields (\<^verbatim>\<open>slotTime\<close>, \<^verbatim>\<open>status\<close>) are assigned after construction. The embedding
  therefore keeps every Token object in an object store \<open>objs\<close> (reference to object) and
  lets arrays and the registry hold references (natural numbers). Doctor and Slot objects
  are reachable through the engine's \<^verbatim>\<open>doctors\<close> map only, so they are kept by value and
  a mutated Slot is written back to the place it was read from.

  An exception that leaves a method is the left injection of the method's result; the
  state at the moment of the throw is returned with it.
\<close>

subsection \<open>JavaScript values used by the engine\<close>

datatype js_error = Error string | TypeError

text \<open>\<^verbatim>\<open>error.message\<close> as read by the catch clause of \<^verbatim>\<open>allocateToken\<close>.\<close>

fun error_message :: "js_error \<Rightarrow> string" where
  "error_message (Error m) = m"
| "error_message TypeError = ''Cannot read properties of undefined''"

text \<open>
  A JavaScript \<^verbatim>\<open>Map\<close> with string keys, in insertion order: \<^verbatim>\<open>get\<close> is \<open>map_of\<close>,
  \<^verbatim>\<open>set\<close> replaces the value of a key that is present (which keeps its place) and
  appends a key that is new.
\<close>

type_synonym 'a js_map = "(string \<times> 'a) list"

fun map_set :: "'a js_map \<Rightarrow> string \<Rightarrow> 'a \<Rightarrow> 'a js_map" where
  "map_set [] k v = [(k, v)]"
| "map_set ((k', v') # m) k v = (if k' = k then (k, v) # m else (k', v') # map_set m k v)"

text \<open>
  Numbers. The hours the engine computes with are integers or NaN (\<open>None\<close>); they are
  modelled exactly, which agrees with IEEE doubles below \<open>2^53\<close>. The quotient computed
  by the statistics view is a \<open>js_number\<close>: division by zero yields NaN or an infinity.
\<close>

datatype js_number = NaN | Infinity | NegInfinity | Finite rat

definition js_div :: "int \<Rightarrow> int \<Rightarrow> js_number" where
  "js_div a b =
     (if b = 0 then (if a = 0 then NaN else if 0 < a then Infinity else NegInfinity)
      else Finite (of_int a / of_int b))"

fun js_times :: "js_number \<Rightarrow> int \<Rightarrow> js_number" where
  "js_times (Finite q) k = Finite (q * of_int k)"
| "js_times NaN k = NaN"
| "js_times Infinity k = (if k = 0 then NaN else if 0 < k then Infinity else NegInfinity)"
| "js_times NegInfinity k = (if k = 0 then NaN else if 0 < k then NegInfinity else Infinity)"

text \<open>\<^verbatim>\<open>Number.prototype.toString\<close> on an integer or NaN, in decimal.\<close>

fun string_of_nat :: "nat \<Rightarrow> string" where
  "string_of_nat n =
     (if n < 10 then [''0123456789'' ! n]
      else string_of_nat (n div 10) @ [''0123456789'' ! (n mod 10)])"

declare string_of_nat.simps [simp del]

definition js_toString :: "int option \<Rightarrow> string" where
  "js_toString n =
     (case n of
        None \<Rightarrow> ''NaN''
      | Some i \<Rightarrow> if i < 0 then CHR ''-'' # string_of_nat (nat (- i)) else string_of_nat (nat i))"

text \<open>\<^verbatim>\<open>str.padStart(2, '0')\<close>.\<close>

definition padStart2 :: "string \<Rightarrow> string" where
  "padStart2 str = replicate (2 - length str) CHR ''0'' @ str"

text \<open>\<^verbatim>\<open>str.split(':')[0]\<close>: the text before the first colon.\<close>

definition split_colon_first :: "string \<Rightarrow> string" where
  "split_colon_first str = takeWhile (\<lambda>c. c \<noteq> CHR '':'') str"

text \<open>
  \<^verbatim>\<open>parseInt(str)\<close> with no radix: leading white space is skipped, a sign is read, a
  prefix \<^verbatim>\<open>0x\<close> or \<^verbatim>\<open>0X\<close> selects radix 16, the longest run of digits is read, and
  the result is NaN when that run is empty.
\<close>

definition is_white :: "char \<Rightarrow> bool" where
  "is_white c = (c \<in> set [CHR '' '', CHR 0x09, CHR 0x0A, CHR 0x0B, CHR 0x0C, CHR 0x0D])"

definition digit_value :: "nat \<Rightarrow> char \<Rightarrow> nat option" where
  "digit_value radix c =
     (let n = (of_char c :: nat);
          v = (if 48 \<le> n \<and> n \<le> 57 then Some (n - 48)
               else if 97 \<le> n \<and> n \<le> 122 then Some (n - 87)
               else if 65 \<le> n \<and> n \<le> 90 then Some (n - 55)
               else None)
      in case v of None \<Rightarrow> None | Some d \<Rightarrow> if d < radix then Some d else None)"

fun parse_digits :: "nat \<Rightarrow> string \<Rightarrow> nat option \<Rightarrow> nat option" where
  "parse_digits radix [] acc = acc"
| "parse_digits radix (c # cs) acc =
     (case digit_value radix c of
        None \<Rightarrow> acc
      | Some d \<Rightarrow> parse_digits radix cs (Some ((case acc of None \<Rightarrow> 0 | Some a \<Rightarrow> a) * radix + d)))"

definition parseInt :: "string \<Rightarrow> int option" where
  "parseInt str =
     (let s0 = dropWhile is_white str;
          negative = (case s0 of c # _ \<Rightarrow> c = CHR ''-'' | [] \<Rightarrow> False);
          s1 = (case s0 of c # cs \<Rightarrow> if c = CHR ''-'' \<or> c = CHR ''+'' then cs else s0 | [] \<Rightarrow> s0);
          hex = (case s1 of c # d # _ \<Rightarrow> c = CHR ''0'' \<and> (d = CHR ''x'' \<or> d = CHR ''X'') | _ \<Rightarrow> False);
          s2 = (if hex then drop 2 s1 else s1)
      in case parse_digits (if hex then 16 else 10) s2 None of
           None \<Rightarrow> None
         | Some n \<Rightarrow> Some (if negative then - int n else int n))"

subsection \<open>The data model (models/index.js)\<close>

datatype TokenStatus = ALLOCATED | CONFIRMED | CANCELLED | COMPLETED | NO_SHOW

text \<open>
  A Token. \<open>tid\<close> is the field \<^verbatim>\<open>id\<close>. The fields \<^verbatim>\<open>createdAt\<close> and
  \<^verbatim>\<open>estimatedTime\<close> are never read by the engine and are left out.
\<close>

record Token =
  tid :: nat
  patientId :: string
  t_doctorId :: string
  slotTime :: string
  source :: string
  priority :: nat
  status :: TokenStatus

text \<open>A Slot; \<open>tokens\<close> holds references to Token objects.\<close>

record Slot =
  s_doctorId :: string
  startTime :: string
  endTime :: string
  maxCapacity :: int
  tokens :: "nat list"
  availableCapacity :: int

record WorkingHours =
  wh_start :: string
  wh_end :: string

record Doctor =
  d_id :: string
  d_name :: string
  specialization :: string
  workingHours :: WorkingHours
  slots :: "Slot js_map"

definition new_Doctor :: "string \<Rightarrow> string \<Rightarrow> string \<Rightarrow> WorkingHours \<Rightarrow> Doctor" where
  "new_Doctor ident name spec hours =
     \<lparr>d_id = ident, d_name = name, specialization = spec, workingHours = hours, slots = []\<rparr>"

text \<open>The constructor of Slot with the default \<^verbatim>\<open>maxCapacity = 10\<close>.\<close>

definition new_Slot :: "string \<Rightarrow> string \<Rightarrow> string \<Rightarrow> Slot" where
  "new_Slot doctorId start finish =
     \<lparr>s_doctorId = doctorId, startTime = start, endTime = finish, maxCapacity = 10,
      tokens = [], availableCapacity = 10\<rparr>"

text \<open>\<^verbatim>\<open>Slot.addToken\<close>: the result and the slot after the call.\<close>

definition addToken :: "nat \<Rightarrow> Slot \<Rightarrow> bool \<times> Slot" where
  "addToken token slot =
     (if 0 < availableCapacity slot
      then (True, slot\<lparr>tokens := tokens slot @ [token],
                       availableCapacity := availableCapacity slot - 1\<rparr>)
      else (False, slot))"

text \<open>\<^verbatim>\<open>Array.prototype.findIndex\<close>; \<open>None\<close> is the result \<^verbatim>\<open>-1\<close>.\<close>

fun findIndex :: "('a \<Rightarrow> bool) \<Rightarrow> 'a list \<Rightarrow> nat option" where
  "findIndex p [] = None"
| "findIndex p (x # xs) =
     (if p x then Some 0 else (case findIndex p xs of None \<Rightarrow> None | Some i \<Rightarrow> Some (Suc i)))"

text \<open>
  \<^verbatim>\<open>Slot.removeToken\<close>; \<^verbatim>\<open>splice(index, 1)\<close> deletes the element at \<open>index\<close>. The
  object store is needed to read \<^verbatim>\<open>t.id\<close>.
\<close>

definition removeToken :: "(nat \<Rightarrow> Token) \<Rightarrow> nat \<Rightarrow> Slot \<Rightarrow> bool \<times> Slot" where
  "removeToken heap tokenId slot =
     (case findIndex (\<lambda>t. tid (heap t) = tokenId) (tokens slot) of
        Some index \<Rightarrow>
          (True, slot\<lparr>tokens := take index (tokens slot) @ drop (Suc index) (tokens slot),
                      availableCapacity := availableCapacity slot + 1\<rparr>)
      | None \<Rightarrow> (False, slot))"

text \<open>TOKEN_SOURCES and \<^verbatim>\<open>getSourceConfig\<close>: the priority of a source tag, walkin's for a
  tag that is not in the table.\<close>

definition TOKEN_SOURCES :: "(string \<times> nat) list" where
  "TOKEN_SOURCES =
     [(''emergency'', 10), (''priority'', 8), (''followup'', 6), (''online'', 4), (''walkin'', 2)]"

definition getSourceConfig :: "string \<Rightarrow> string \<times> nat" where
  "getSourceConfig src =
     (case find (\<lambda>s. fst s = src) TOKEN_SOURCES of Some s \<Rightarrow> s | None \<Rightarrow> (''walkin'', 2))"

subsection \<open>The engine state\<close>

text \<open>
  \<open>doctors\<close>, \<open>tokens_reg\<close> (the field \<^verbatim>\<open>tokens\<close>: token id to Token object) and
  \<open>waitingQueue\<close> are the three fields of the engine. \<open>objs\<close> is the store of Token
  objects and \<open>nextRef\<close> the number of Token objects constructed so far, which is the
  reference of the next one.
\<close>

record state =
  doctors :: "Doctor js_map"
  tokens_reg :: "nat \<rightharpoonup> nat"
  waitingQueue :: "nat list"
  objs :: "nat \<Rightarrow> Token"
  nextRef :: nat

definition default_Token :: Token where
  "default_Token =
     \<lparr>tid = 0, patientId = [], t_doctorId = [], slotTime = [], source = [], priority = 0,
      status = ALLOCATED\<rparr>"

text \<open>The engine after its constructor.\<close>

definition new_engine :: state where
  "new_engine =
     \<lparr>doctors = [], tokens_reg = Map.empty, waitingQueue = [], objs = (\<lambda>_. default_Token),
      nextRef = 0\<rparr>"

text \<open>
  Modelled from the spec: the generator of Token ids, \<^verbatim>\<open>require('uuid').v4()\<close>, is a
  library outside the repository; the specification asks for "a unique-identifier generator
  for Token ids (any collision-free generator suffices)". The id drawn for a Token object is
  the number of Token objects constructed before it.
\<close>

definition uuid_v4 :: "state \<Rightarrow> nat" where
  "uuid_v4 s = nextRef s"

text \<open>\<^verbatim>\<open>new Token(patientId, doctorId, slotTime, source, priority)\<close>: the reference of the new
  object and the state that holds it.\<close>

definition new_Token :: "string \<Rightarrow> string \<Rightarrow> string \<Rightarrow> string \<Rightarrow> nat \<Rightarrow> state \<Rightarrow> nat \<times> state" where
  "new_Token patient doctorId time src prio s =
     (nextRef s,
      s\<lparr>objs := (objs s)(nextRef s :=
            \<lparr>tid = uuid_v4 s, patientId = patient, t_doctorId = doctorId, slotTime = time,
             source = src, priority = prio, status = ALLOCATED\<rparr>),
        nextRef := Suc (nextRef s)\<rparr>)"

text \<open>The template literal \<^verbatim>\<open>`${doctorId}-${slotTime}`\<close>.\<close>

definition slotKeyOf :: "string \<Rightarrow> string \<Rightarrow> string" where
  "slotKeyOf doctorId time = doctorId @ ''-'' @ time"

text \<open>A Slot object mutated in place: the slot read by
  \<^verbatim>\<open>this.doctors.get(doctorId).slots.get(slotKey)\<close> takes the new value.\<close>

definition store_slot :: "string \<Rightarrow> string \<Rightarrow> Slot \<Rightarrow> state \<Rightarrow> state" where
  "store_slot doctorId slotKey slot s =
     (case map_of (doctors s) doctorId of
        None \<Rightarrow> s
      | Some doctor \<Rightarrow>
          s\<lparr>doctors := map_set (doctors s) doctorId
                (doctor\<lparr>slots := map_set (slots doctor) slotKey slot\<rparr>)\<rparr>)"

subsection \<open>Provider registration\<close>

function initializeDoctorSlots_loop :: "int \<Rightarrow> int \<Rightarrow> Doctor \<Rightarrow> Doctor" where
  "initializeDoctorSlots_loop hour endHour doctor =
     (if hour < endHour then
        (let start = padStart2 (js_toString (Some hour)) @ '':00'';
             finish = padStart2 (js_toString (Some (hour + 1))) @ '':00'';
             slotKey = slotKeyOf (d_id doctor) start;
             slot = new_Slot (d_id doctor) start finish
         in initializeDoctorSlots_loop (hour + 1) endHour
              (doctor\<lparr>slots := map_set (slots doctor) slotKey slot\<rparr>))
      else doctor)"
  by pat_completeness auto
termination
  by (relation "measure (\<lambda>(hour, endHour, doctor). nat (endHour - hour))") auto

declare initializeDoctorSlots_loop.simps [simp del]

text \<open>The loop \<^verbatim>\<open>for (hour = startHour; hour < endHour; hour++)\<close> has no iteration when
  either bound is NaN, since every comparison with NaN is false.\<close>

definition initializeDoctorSlots :: "Doctor \<Rightarrow> Doctor" where
  "initializeDoctorSlots doctor =
     (case parseInt (split_colon_first (wh_start (workingHours doctor))) of
        None \<Rightarrow> doctor
      | Some startHour \<Rightarrow>
          (case parseInt (split_colon_first (wh_end (workingHours doctor))) of
             None \<Rightarrow> doctor
           | Some endHour \<Rightarrow> initializeDoctorSlots_loop startHour endHour doctor))"

definition addDoctor :: "Doctor \<Rightarrow> state \<Rightarrow> state" where
  "addDoctor doctor s =
     s\<lparr>doctors := map_set (doctors s) (d_id doctor) (initializeDoctorSlots doctor)\<rparr>"

subsection \<open>Placement and preemption\<close>

text \<open>\<^verbatim>\<open>canBumpTokenInSlot\<close>: \<^verbatim>\<open>slot.tokens.some(token => token.priority < newPriority)\<close>.\<close>

definition canBumpTokenInSlot :: "(nat \<Rightarrow> Token) \<Rightarrow> Slot \<Rightarrow> nat \<Rightarrow> bool" where
  "canBumpTokenInSlot heap slot newPriority =
     list_ex (\<lambda>token. priority (heap token) < newPriority) (tokens slot)"

text \<open>The scan of \<^verbatim>\<open>tryBumpLowerPriorityToken\<close> with its two loop variables.\<close>

fun lowest_scan :: "(nat \<Rightarrow> Token) \<Rightarrow> nat list \<Rightarrow> nat option \<Rightarrow> nat \<Rightarrow> nat option" where
  "lowest_scan heap [] lowestPriorityToken lowestPriority = lowestPriorityToken"
| "lowest_scan heap (existingToken # rest) lowestPriorityToken lowestPriority =
     (if priority (heap existingToken) < lowestPriority
      then lowest_scan heap rest (Some existingToken) (priority (heap existingToken))
      else lowest_scan heap rest lowestPriorityToken lowestPriority)"

text \<open>\<^verbatim>\<open>tryBumpLowerPriorityToken(slot, newToken)\<close>: the result, the slot and the state after
  the call. The results of \<^verbatim>\<open>removeToken\<close> and \<^verbatim>\<open>addToken\<close> are not read.\<close>

definition tryBumpLowerPriorityToken :: "Slot \<Rightarrow> nat \<Rightarrow> state \<Rightarrow> bool \<times> Slot \<times> state" where
  "tryBumpLowerPriorityToken slot newToken s =
     (case lowest_scan (objs s) (tokens slot) None (priority (objs s newToken)) of
        Some lowestPriorityToken \<Rightarrow>
          (let slot1 = snd (removeToken (objs s) (tid (objs s lowestPriorityToken)) slot);
               s1 = s\<lparr>waitingQueue := waitingQueue s @ [lowestPriorityToken]\<rparr>;
               slot2 = snd (addToken newToken slot1)
           in (True, slot2, s1))
      | None \<Rightarrow> (False, slot, s))"

text \<open>\<^verbatim>\<open>tryAllocateToSlot(token, slotTime)\<close>. Reading \<^verbatim>\<open>doctor.slots\<close> of a doctor that is
  not in the table throws a TypeError.\<close>

definition tryAllocateToSlot :: "nat \<Rightarrow> string \<Rightarrow> state \<Rightarrow> (js_error + bool) \<times> state" where
  "tryAllocateToSlot token time s =
     (case map_of (doctors s) (t_doctorId (objs s token)) of
        None \<Rightarrow> (Inl TypeError, s)
      | Some doctor \<Rightarrow>
          (let slotKey = slotKeyOf (t_doctorId (objs s token)) time in
           case map_of (slots doctor) slotKey of
             None \<Rightarrow> (Inr False, s)
           | Some slot \<Rightarrow>
               if 0 < availableCapacity slot then
                 (let (r, slot') = addToken token slot
                  in (Inr r, store_slot (t_doctorId (objs s token)) slotKey slot' s))
               else
                 (let (r, slot', s') = tryBumpLowerPriorityToken slot token s
                  in (Inr r, store_slot (t_doctorId (objs s token)) slotKey slot' s'))))"

subsection \<open>Searching for a slot\<close>

text \<open>The loop of \<^verbatim>\<open>findAlternativeSlot\<close> over \<^verbatim>\<open>timeRange\<close>.\<close>

fun findAlternativeSlot_loop ::
  "(nat \<Rightarrow> Token) \<Rightarrow> Doctor \<Rightarrow> string \<Rightarrow> int option \<Rightarrow> nat \<Rightarrow> int list \<Rightarrow> string option" where
  "findAlternativeSlot_loop heap doctor doctorId preferredHour prio [] = None"
| "findAlternativeSlot_loop heap doctor doctorId preferredHour prio (offset # rest) =
     (let alternativeHour = map_option (\<lambda>h. h + offset) preferredHour;
          alternativeTime = padStart2 (js_toString alternativeHour) @ '':00'';
          slotKey = slotKeyOf doctorId alternativeTime
      in case map_of (slots doctor) slotKey of
           Some slot \<Rightarrow>
             if 0 < availableCapacity slot \<or> canBumpTokenInSlot heap slot prio
             then Some alternativeTime
             else findAlternativeSlot_loop heap doctor doctorId preferredHour prio rest
         | None \<Rightarrow> findAlternativeSlot_loop heap doctor doctorId preferredHour prio rest)"

definition timeRange :: "int list" where
  "timeRange = [- 2, - 1, 1, 2]"

definition findAlternativeSlot :: "string \<Rightarrow> string \<Rightarrow> nat \<Rightarrow> state \<Rightarrow> js_error + string option" where
  "findAlternativeSlot doctorId preferredTime prio s =
     (case map_of (doctors s) doctorId of
        None \<Rightarrow> Inl TypeError
      | Some doctor \<Rightarrow>
          Inr (findAlternativeSlot_loop (objs s) doctor doctorId
                 (parseInt (split_colon_first preferredTime)) prio timeRange))"

text \<open>The loop of \<^verbatim>\<open>findAnyAvailableSlot\<close> over the doctor's slots in insertion order.\<close>

fun findAnyAvailableSlot_loop :: "(nat \<Rightarrow> Token) \<Rightarrow> nat \<Rightarrow> Slot js_map \<Rightarrow> string option" where
  "findAnyAvailableSlot_loop heap prio [] = None"
| "findAnyAvailableSlot_loop heap prio ((slotKey, slot) # rest) =
     (if 0 < availableCapacity slot \<or> canBumpTokenInSlot heap slot prio
      then Some (startTime slot)
      else findAnyAvailableSlot_loop heap prio rest)"

definition findAnyAvailableSlot :: "string \<Rightarrow> nat \<Rightarrow> state \<Rightarrow> js_error + string option" where
  "findAnyAvailableSlot doctorId prio s =
     (case map_of (doctors s) doctorId of
        None \<Rightarrow> Inl TypeError
      | Some doctor \<Rightarrow> Inr (findAnyAvailableSlot_loop (objs s) prio (slots doctor)))"

text \<open>The assignment \<^verbatim>\<open>token.slotTime = time\<close>.\<close>

definition set_slotTime :: "nat \<Rightarrow> string \<Rightarrow> state \<Rightarrow> state" where
  "set_slotTime token time s = s\<lparr>objs := (objs s)(token := (objs s token)\<lparr>slotTime := time\<rparr>)\<rparr>"

text \<open>The assignment \<^verbatim>\<open>token.status = st\<close>.\<close>

definition set_status :: "nat \<Rightarrow> TokenStatus \<Rightarrow> state \<Rightarrow> state" where
  "set_status token st s = s\<lparr>objs := (objs s)(token := (objs s token)\<lparr>status := st\<rparr>)\<rparr>"

subsection \<open>Waiting-queue replay\<close>

text \<open>
  \<^verbatim>\<open>processWaitingQueue\<close> iterates \<^verbatim>\<open>for (const token of this.waitingQueue)\<close>. The array
  iterator reads the length of the array at every step, and \<^verbatim>\<open>tryBumpLowerPriorityToken\<close>
  pushes onto that same array while the loop runs, so the loop is modelled by the index
  \<open>i\<close> into the queue of the current state. The facts below give the measure that shows
  that the loop ends: a token pushed during the pass has a priority strictly below that of
  the token that displaced it.
\<close>

lemma lowest_scan_result:
  "lowest_scan heap ts acc p = Some y \<Longrightarrow> acc = Some y \<or> (y \<in> set ts \<and> priority (heap y) < p)"
proof (induction ts arbitrary: acc p)
  case Nil
  then show ?case by simp
next
  case (Cons x xs)
  show ?case
  proof (cases "priority (heap x) < p")
    case True
    with Cons.prems have "lowest_scan heap xs (Some x) (priority (heap x)) = Some y" by simp
    from Cons.IH [OF this] True show ?thesis by auto
  next
    case False
    with Cons.prems have "lowest_scan heap xs acc p = Some y" by simp
    from Cons.IH [OF this] show ?thesis by auto
  qed
qed

lemma store_slot_frame [simp]:
  "waitingQueue (store_slot d k sl s) = waitingQueue s"
  "objs (store_slot d k sl s) = objs s"
  "tokens_reg (store_slot d k sl s) = tokens_reg s"
  "nextRef (store_slot d k sl s) = nextRef s"
  by (simp_all add: store_slot_def split: option.splits)

lemma tryBump_frame:
  assumes "tryBumpLowerPriorityToken slot newToken s = (r, slot', s')"
  shows "objs s' = objs s \<and> tokens_reg s' = tokens_reg s \<and> nextRef s' = nextRef s \<and> doctors s' = doctors s"
  using assms by (auto simp: tryBumpLowerPriorityToken_def Let_def split: option.splits)

lemma tryBump_queue:
  assumes "tryBumpLowerPriorityToken slot newToken s = (r, slot', s')"
  shows "(\<not> r \<and> waitingQueue s' = waitingQueue s) \<or>
         (r \<and> (\<exists>y. y \<in> set (tokens slot) \<and> waitingQueue s' = waitingQueue s @ [y] \<and>
              priority (objs s y) < priority (objs s newToken)))"
  using assms
  by (auto simp: tryBumpLowerPriorityToken_def Let_def split: option.splits
      dest!: lowest_scan_result)

lemma tryAllocateToSlot_frame:
  assumes "tryAllocateToSlot token time s = (r, s')"
  shows "objs s' = objs s \<and> tokens_reg s' = tokens_reg s \<and> nextRef s' = nextRef s"
  using assms
  by (auto simp: tryAllocateToSlot_def Let_def split: option.splits if_splits prod.splits
      dest!: tryBump_frame)

lemma tryAllocateToSlot_queue:
  assumes "tryAllocateToSlot token time s = (r, s')"
  shows "waitingQueue s' = waitingQueue s \<or>
         (\<exists>y. waitingQueue s' = waitingQueue s @ [y] \<and>
              priority (objs s y) < priority (objs s token))"
  using assms
  by (auto simp: tryAllocateToSlot_def Let_def split: option.splits if_splits prod.splits
      dest!: tryBump_queue)

lemma set_slotTime_frame [simp]:
  "waitingQueue (set_slotTime t x s) = waitingQueue s"
  "doctors (set_slotTime t x s) = doctors s"
  "tokens_reg (set_slotTime t x s) = tokens_reg s"
  "nextRef (set_slotTime t x s) = nextRef s"
  "priority (objs (set_slotTime t x s) r) = priority (objs s r)"
  "tid (objs (set_slotTime t x s) r) = tid (objs s r)"
  "t_doctorId (objs (set_slotTime t x s) r) = t_doctorId (objs s r)"
  "status (objs (set_slotTime t x s) r) = status (objs s r)"
  by (simp_all add: set_slotTime_def)

lemma replay_measure_skip:
  assumes "i < length q"
  shows "sum_list (map (\<lambda>t. Suc (f t)) (drop (Suc i) q)) < sum_list (map (\<lambda>t. Suc (f t)) (drop i q))"
proof -
  have "drop i q = q ! i # drop (Suc i) q"
    using assms by (simp add: Cons_nth_drop_Suc)
  then show ?thesis by simp
qed

lemma replay_measure_place:
  assumes "i < length (waitingQueue s)"
    and "tryAllocateToSlot (waitingQueue s ! i) time (set_slotTime (waitingQueue s ! i) time s) = (r, s2)"
  shows "sum_list (map (\<lambda>t. Suc (priority (objs s2 t))) (drop (Suc i) (waitingQueue s2)))
       < sum_list (map (\<lambda>t. Suc (priority (objs s t))) (drop i (waitingQueue s)))"
proof -
  let ?s1 = "set_slotTime (waitingQueue s ! i) time s"
  let ?f = "\<lambda>t. priority (objs s t)"
  have heap: "objs s2 = objs ?s1"
    using tryAllocateToSlot_frame [OF assms(2)] by simp
  then have prio: "\<And>t. priority (objs s2 t) = ?f t"
    by simp
  have split: "drop i (waitingQueue s) = waitingQueue s ! i # drop (Suc i) (waitingQueue s)"
    using assms(1) by (simp add: Cons_nth_drop_Suc)
  from tryAllocateToSlot_queue [OF assms(2)]
  consider "waitingQueue s2 = waitingQueue s"
    | y where "waitingQueue s2 = waitingQueue s @ [y]" "?f y < ?f (waitingQueue s ! i)"
    by auto
  then show ?thesis
  proof cases
    case 1
    then show ?thesis using replay_measure_skip [OF assms(1), of ?f] by (simp add: prio)
  next
    case 2
    have "drop (Suc i) (waitingQueue s2) = drop (Suc i) (waitingQueue s) @ [y]"
      using 2(1) assms(1) by simp
    then show ?thesis
      using 2(2) by (simp add: prio split)
  qed
qed

function processWaitingQueue_loop ::
  "nat \<Rightarrow> nat list \<Rightarrow> nat list \<Rightarrow> state \<Rightarrow> (js_error + nat list \<times> nat list) \<times> state" where
  "processWaitingQueue_loop i reallocated stillWaiting s =
     (if i < length (waitingQueue s) then
        (let token = waitingQueue s ! i in
         case findAnyAvailableSlot (t_doctorId (objs s token)) (priority (objs s token)) s of
           Inl e \<Rightarrow> (Inl e, s)
         | Inr None \<Rightarrow> processWaitingQueue_loop (Suc i) reallocated (stillWaiting @ [token]) s
         | Inr (Some availableSlot) \<Rightarrow>
             if availableSlot \<noteq> [] then
               (case tryAllocateToSlot token availableSlot (set_slotTime token availableSlot s) of
                  (Inl e, s2) \<Rightarrow> (Inl e, s2)
                | (Inr placed, s2) \<Rightarrow>
                    if placed
                    then processWaitingQueue_loop (Suc i) (reallocated @ [token]) stillWaiting s2
                    else processWaitingQueue_loop (Suc i) reallocated (stillWaiting @ [token]) s2)
             else processWaitingQueue_loop (Suc i) reallocated (stillWaiting @ [token]) s)
      else (Inr (reallocated, stillWaiting), s))"
  by pat_completeness auto
termination
  apply (relation "measure (\<lambda>(i, reallocated, stillWaiting, s).
            sum_list (map (\<lambda>t. Suc (priority (objs s t))) (drop i (waitingQueue s))))")
      apply simp
     apply (simp add: replay_measure_skip)
    apply (simp add: replay_measure_place [OF _ sym])
   apply (simp add: replay_measure_place [OF _ sym])
  apply (simp add: replay_measure_skip)
  done


declare processWaitingQueue_loop.simps [simp del]

text \<open>\<^verbatim>\<open>processWaitingQueue()\<close>: the array \<^verbatim>\<open>reallocated\<close> it returns, and the state after
  \<^verbatim>\<open>this.waitingQueue = stillWaiting\<close>.\<close>

definition processWaitingQueue :: "state \<Rightarrow> (js_error + nat list) \<times> state" where
  "processWaitingQueue s =
     (case processWaitingQueue_loop 0 [] [] s of
        (Inl e, s') \<Rightarrow> (Inl e, s')
      | (Inr (reallocated, stillWaiting), s') \<Rightarrow>
          (Inr reallocated, s'\<lparr>waitingQueue := stillWaiting\<rparr>))"

subsection \<open>The operations of the engine\<close>

text \<open>The objects the operations return: \<^verbatim>\<open>{ success, token, message }\<close> or
  \<^verbatim>\<open>{ success, error }\<close>; a field that is absent is \<open>None\<close>.\<close>

record Outcome =
  r_success :: bool
  r_token :: "nat option"
  r_message :: "string option"
  r_error :: "string option"

text \<open>\<^verbatim>\<open>this.tokens.set(token.id, token)\<close>.\<close>

definition register_token :: "nat \<Rightarrow> state \<Rightarrow> state" where
  "register_token token s = s\<lparr>tokens_reg := (tokens_reg s)(tid (objs s token) \<mapsto> token)\<rparr>"

text \<open>The body of the \<^verbatim>\<open>try\<close> block of \<^verbatim>\<open>allocateToken\<close>.\<close>

definition allocateToken_try ::
  "string \<Rightarrow> string \<Rightarrow> string \<Rightarrow> string \<Rightarrow> state \<Rightarrow> (js_error + Outcome) \<times> state" where
  "allocateToken_try patient doctorId preferredTime src s =
     (case map_of (doctors s) doctorId of
        None \<Rightarrow> (Inl (Error ''Doctor not found''), s)
      | Some doctor \<Rightarrow>
          (let sourceConfig = getSourceConfig src;
               (token, s1) = new_Token patient doctorId preferredTime src (snd sourceConfig) s;
               queued = (\<lambda>s'. (Inr \<lparr>r_success = False, r_token = Some token,
                                   r_message = Some ''No slots available, added to waiting queue'',
                                   r_error = None\<rparr>,
                               s'\<lparr>waitingQueue := waitingQueue s' @ [token]\<rparr>))
           in case tryAllocateToSlot token preferredTime s1 of
                (Inl e, s2) \<Rightarrow> (Inl e, s2)
              | (Inr placed, s2) \<Rightarrow>
                  if placed then
                    (Inr \<lparr>r_success = True, r_token = Some token,
                          r_message = Some ''Token allocated successfully'', r_error = None\<rparr>,
                     register_token token s2)
                  else
                    (case findAlternativeSlot doctorId preferredTime (snd sourceConfig) s2 of
                       Inl e \<Rightarrow> (Inl e, s2)
                     | Inr None \<Rightarrow> queued s2
                     | Inr (Some alternativeSlot) \<Rightarrow>
                         if alternativeSlot \<noteq> [] then
                           (case tryAllocateToSlot token alternativeSlot
                                   (set_slotTime token alternativeSlot s2) of
                              (Inl e, s4) \<Rightarrow> (Inl e, s4)
                            | (Inr placed', s4) \<Rightarrow>
                                if placed' then
                                  (Inr \<lparr>r_success = True, r_token = Some token,
                                        r_message = Some (''Token allocated to alternative slot: ''
                                                          @ alternativeSlot),
                                        r_error = None\<rparr>,
                                   register_token token s4)
                                else queued s4)
                         else queued s2)))"

text \<open>\<^verbatim>\<open>allocateToken\<close>: the \<^verbatim>\<open>catch\<close> clause turns every exception into a result.\<close>

definition allocateToken ::
  "string \<Rightarrow> string \<Rightarrow> string \<Rightarrow> string \<Rightarrow> state \<Rightarrow> Outcome \<times> state" where
  "allocateToken patient doctorId preferredTime src s =
     (case allocateToken_try patient doctorId preferredTime src s of
        (Inl e, s') \<Rightarrow>
          (\<lparr>r_success = False, r_token = None, r_message = None,
            r_error = Some (error_message e)\<rparr>, s')
      | (Inr out, s') \<Rightarrow> (out, s'))"

definition cancelToken :: "nat \<Rightarrow> state \<Rightarrow> (js_error + Outcome) \<times> state" where
  "cancelToken tokenId s =
     (case tokens_reg s tokenId of
        None \<Rightarrow>
          (Inr \<lparr>r_success = False, r_token = None, r_message = Some ''Token not found'',
                r_error = None\<rparr>, s)
      | Some token \<Rightarrow>
          (case map_of (doctors s) (t_doctorId (objs s token)) of
             None \<Rightarrow> (Inl TypeError, s)
           | Some doctor \<Rightarrow>
               (let slotKey = slotKeyOf (t_doctorId (objs s token)) (slotTime (objs s token));
                    s1 = (case map_of (slots doctor) slotKey of
                            Some slot \<Rightarrow>
                              store_slot (t_doctorId (objs s token)) slotKey
                                (snd (removeToken (objs s) tokenId slot)) s
                          | None \<Rightarrow> s);
                    s2 = set_status token CANCELLED s1
                in case processWaitingQueue s2 of
                     (Inl e, s3) \<Rightarrow> (Inl e, s3)
                   | (Inr reallocated, s3) \<Rightarrow>
                       (Inr \<lparr>r_success = True, r_token = None,
                             r_message = Some ''Token cancelled successfully'', r_error = None\<rparr>,
                        s3))))"

definition insertEmergencyToken ::
  "string \<Rightarrow> string \<Rightarrow> string \<Rightarrow> state \<Rightarrow> (js_error + Outcome) \<times> state" where
  "insertEmergencyToken patient doctorId urgentTime s =
     (let (emergencyToken, s1) = new_Token patient doctorId urgentTime ''emergency'' 10 s
      in case tryAllocateToSlot emergencyToken urgentTime s1 of
           (Inl e, s2) \<Rightarrow> (Inl e, s2)
         | (Inr placed, s2) \<Rightarrow>
             if placed then
               (case processWaitingQueue (register_token emergencyToken s2) of
                  (Inl e, s3) \<Rightarrow> (Inl e, s3)
                | (Inr reallocated, s3) \<Rightarrow>
                    (Inr \<lparr>r_success = True, r_token = Some emergencyToken,
                          r_message = Some ''Emergency token allocated successfully'',
                          r_error = None\<rparr>, s3))
             else
               (Inr \<lparr>r_success = False, r_token = None,
                     r_message = Some ''Failed to allocate emergency token'', r_error = None\<rparr>,
                s2))"

subsection \<open>Statistics\<close>

text \<open>
  The object \<^verbatim>\<open>getSystemStats\<close> returns. \<open>utilizationRate\<close> is the number
  \<^verbatim>\<open>(allocatedTokens / totalCapacity) * 100\<close> that the source then formats with
  \<^verbatim>\<open>toFixed(2)\<close> and a percent sign; \<^verbatim>\<open>NaN.toFixed(2)\<close> is the text \<^verbatim>\<open>NaN\<close>.
\<close>

record Stats =
  totalDoctors :: nat
  totalSlots :: nat
  occupiedSlots :: nat
  totalCapacity :: int
  allocatedTokens :: nat
  waitingQueueLength :: nat
  utilizationRate :: js_number

text \<open>The inner and the outer loop of \<^verbatim>\<open>getSystemStats\<close>; the accumulator is
  \<open>(totalSlots, occupiedSlots, totalCapacity, allocatedTokens)\<close>.\<close>

fun getSystemStats_slots :: "Slot list \<Rightarrow> nat \<times> nat \<times> int \<times> nat \<Rightarrow> nat \<times> nat \<times> int \<times> nat" where
  "getSystemStats_slots [] acc = acc"
| "getSystemStats_slots (slot # rest) (nSlots, nOccupied, capacity, allocated) =
     getSystemStats_slots rest
       (nSlots + 1,
        (if 0 < length (tokens slot) then nOccupied + 1 else nOccupied),
        capacity + maxCapacity slot,
        allocated + length (tokens slot))"

fun getSystemStats_doctors :: "Doctor list \<Rightarrow> nat \<times> nat \<times> int \<times> nat \<Rightarrow> nat \<times> nat \<times> int \<times> nat" where
  "getSystemStats_doctors [] acc = acc"
| "getSystemStats_doctors (doctor # rest) acc =
     getSystemStats_doctors rest (getSystemStats_slots (map snd (slots doctor)) acc)"

definition getSystemStats :: "state \<Rightarrow> Stats" where
  "getSystemStats s =
     (case getSystemStats_doctors (map snd (doctors s)) (0, 0, 0, 0) of
        (nSlots, nOccupied, capacity, allocated) \<Rightarrow>
          \<lparr>totalDoctors = length (doctors s),
           totalSlots = nSlots,
           occupiedSlots = nOccupied,
           totalCapacity = capacity,
           allocatedTokens = allocated,
           waitingQueueLength = length (waitingQueue s),
           utilizationRate = js_times (js_div (int allocated) capacity) 100\<rparr>)"

subsection \<open>Observing and driving the engine\<close>

text \<open>Every Slot of every registered doctor, and the references they hold.\<close>

definition all_slots :: "state \<Rightarrow> Slot list" where
  "all_slots s = concat (map (\<lambda>entry. map snd (slots (snd entry))) (doctors s))"

definition occupants :: "state \<Rightarrow> nat list" where
  "occupants s = concat (map tokens (all_slots s))"

text \<open>The Slot that \<^verbatim>\<open>this.doctors.get(doctorId).slots.get(`${doctorId}-${time}`)\<close> reads.\<close>

definition slot_at :: "string \<Rightarrow> string \<Rightarrow> state \<Rightarrow> Slot option" where
  "slot_at doctorId time s =
     (case map_of (doctors s) doctorId of
        None \<Rightarrow> None
      | Some doctor \<Rightarrow> map_of (slots doctor) (slotKeyOf doctorId time))"

text \<open>
  The calls a client of the engine can make, and the state each leaves behind (also when
  the call throws). A doctor is registered the way the HTTP route does it: constructed by
  \<^verbatim>\<open>new Doctor(id, name, specialization, workingHours)\<close> and passed to \<^verbatim>\<open>addDoctor\<close>.
\<close>

datatype call =
    AddDoctor string string string WorkingHours
  | AllocateToken string string string string
  | InsertEmergencyToken string string string
  | CancelToken nat
  | ProcessWaitingQueue

fun step :: "call \<Rightarrow> state \<Rightarrow> state" where
  "step (AddDoctor ident name spec hours) s = addDoctor (new_Doctor ident name spec hours) s"
| "step (AllocateToken patient doctorId preferredTime src) s =
     snd (allocateToken patient doctorId preferredTime src s)"
| "step (InsertEmergencyToken patient doctorId urgentTime) s =
     snd (insertEmergencyToken patient doctorId urgentTime s)"
| "step (CancelToken tokenId) s = snd (cancelToken tokenId s)"
| "step ProcessWaitingQueue s = snd (processWaitingQueue s)"

text \<open>The state after a sequence of calls, the first call first.\<close>

definition run :: "call list \<Rightarrow> state \<Rightarrow> state" where
  "run calls s = fold step calls s"

subsection \<open>Scenarios and the vocabulary of the proofs\<close>

text \<open>
  The scenario of the specification: a doctor with working hours 09:00 to 11:00, ten walk-in
  tokens allocated to 09:00 (references 0 to 9), which fills that slot.
\<close>

definition scenario_doctor :: call where
  "scenario_doctor =
     AddDoctor ''DOC001'' ''Dr. Sarah Johnson'' ''General Medicine''
       \<lparr>wh_start = ''09:00'', wh_end = ''11:00''\<rparr>"

definition scenario_full :: "call list" where
  "scenario_full = scenario_doctor # replicate 10 (AllocateToken ''P001'' ''DOC001'' ''09:00'' ''walkin'')"

text \<open>The value a call returned, when it did not throw.\<close>

fun projr_opt :: "js_error + 'a \<Rightarrow> 'a option" where
  "projr_opt (Inl e) = None"
| "projr_opt (Inr v) = Some v"

text \<open>The full 09:00 slot, then a priority token for 09:00: it preempts token 0, which
  waits in the queue.\<close>

definition scenario_preempted :: "call list" where
  "scenario_preempted = scenario_full @ [AllocateToken ''P002'' ''DOC001'' ''09:00'' ''priority'']"

text \<open>A full 09:00 slot with one online token (reference 0) and nine walk-in tokens, and
  that state after a priority token (reference 10) has been constructed.\<close>

definition scenario_mixed :: "call list" where
  "scenario_mixed =
     scenario_doctor # AllocateToken ''P003'' ''DOC001'' ''09:00'' ''online''
       # replicate 9 (AllocateToken ''P001'' ''DOC001'' ''09:00'' ''walkin'')"

definition scenario_mixed_slot :: Slot where
  "scenario_mixed_slot =
     (case slot_at ''DOC001'' ''09:00'' (run scenario_mixed new_engine) of
        Some slot \<Rightarrow> slot
      | None \<Rightarrow> new_Slot [] [] [])"

definition scenario_mixed_state :: state where
  "scenario_mixed_state =
     snd (new_Token ''P002'' ''DOC001'' ''09:00'' ''priority'' 8 (run scenario_mixed new_engine))"

text \<open>The alternative-slot search in the words of the specification: the candidate times at
  the offsets -2, -1, +1, +2 from the preferred hour, in that order, and the first of them
  whose slot exists and has spare capacity or an occupant of strictly lower priority.\<close>

definition candidate_times :: "string \<Rightarrow> string list" where
  "candidate_times preferredTime =
     map (\<lambda>offset. padStart2 (js_toString
            (map_option (\<lambda>h. h + offset) (parseInt (split_colon_first preferredTime)))) @ '':00'')
       [- 2, - 1, 1, 2]"

definition candidate_eligible :: "(nat \<Rightarrow> Token) \<Rightarrow> Doctor \<Rightarrow> string \<Rightarrow> nat \<Rightarrow> string \<Rightarrow> bool" where
  "candidate_eligible heap doctor doctorId prio time =
     (case map_of (slots doctor) (slotKeyOf doctorId time) of
        None \<Rightarrow> False
      | Some slot \<Rightarrow>
          0 < availableCapacity slot \<or> (\<exists>t\<in>set (tokens slot). priority (heap t) < prio))"

definition findAlternative_spec ::
  "(nat \<Rightarrow> Token) \<Rightarrow> Doctor \<Rightarrow> string \<Rightarrow> string \<Rightarrow> nat \<Rightarrow> string option" where
  "findAlternative_spec heap doctor doctorId preferredTime prio =
     find (candidate_eligible heap doctor doctorId prio) (candidate_times preferredTime)"

text \<open>Ten emergency tokens in the 09:00 slot.\<close>

definition scenario_emergencies :: "call list" where
  "scenario_emergencies =
     scenario_doctor # replicate 10 (InsertEmergencyToken ''P005'' ''DOC001'' ''09:00'')"

text \<open>One iteration of the loop of \<^verbatim>\<open>processWaitingQueue\<close>, at index \<open>i\<close> of the queue: it
  throws, or the token is placed (\<^verbatim>\<open>reallocated.push(token); continue\<close>), or the token is
  kept (\<^verbatim>\<open>stillWaiting.push(token)\<close>).\<close>

datatype visit_result = Thrown js_error state | Placed state | Kept state

definition visit :: "nat \<Rightarrow> state \<Rightarrow> visit_result" where
  "visit i s =
     (let token = waitingQueue s ! i in
      case findAnyAvailableSlot (t_doctorId (objs s token)) (priority (objs s token)) s of
        Inl e \<Rightarrow> Thrown e s
      | Inr None \<Rightarrow> Kept s
      | Inr (Some availableSlot) \<Rightarrow>
          if availableSlot \<noteq> [] then
            (case tryAllocateToSlot token availableSlot (set_slotTime token availableSlot s) of
               (Inl e, s2) \<Rightarrow> Thrown e s2
             | (Inr placed, s2) \<Rightarrow> if placed then Placed s2 else Kept s2)
          else Kept s)"

text \<open>A doctor with the single slot 09:00, filled by ten walk-in tokens (references 0 to 9),
  and three requests for 20:00, where the doctor has no slot: they wait in the queue
  (references 10, 11 and 12; 11 is a priority token).\<close>

definition scenario_single :: "call list" where
  "scenario_single =
     AddDoctor ''DOC002'' ''Dr. Michael Chen'' ''Cardiology'' \<lparr>wh_start = ''09:00'', wh_end = ''10:00''\<rparr>
       # replicate 10 (AllocateToken ''P001'' ''DOC002'' ''09:00'' ''walkin'')
       @ [AllocateToken ''P006'' ''DOC002'' ''20:00'' ''walkin'',
          AllocateToken ''P002'' ''DOC002'' ''20:00'' ''priority'',
          AllocateToken ''P008'' ''DOC002'' ''20:00'' ''walkin'']"

text \<open>The full 09:00 slot of the first scenario, the 10:00 slot empty, and a priority token
  (reference 10) that waits in the queue because it asked for 20:00.\<close>

definition scenario_queued :: "call list" where
  "scenario_queued = scenario_full @ [AllocateToken ''P002'' ''DOC001'' ''20:00'' ''priority'']"

text \<open>
  The invariant of the engine. A slot is consistent when its capacity is 10, its stored
  \<^verbatim>\<open>availableCapacity\<close> is the capacity minus the number of occupants and it has at most 10
  occupants. \<open>engine_inv s pending\<close> holds when every slot is consistent, no reference
  occurs twice among the occupants of all slots and the list \<open>pending\<close>, every
  reference held by a slot, the queue, the registry or \<open>pending\<close> is that of a Token
  object constructed earlier whose doctor is registered, the k-th Token object has the id
  k, and every registered id is that of a Token object constructed earlier.
\<close>

definition slot_ok :: "Slot \<Rightarrow> bool" where
  "slot_ok slot \<longleftrightarrow>
     maxCapacity slot = 10 \<and> availableCapacity slot = 10 - int (length (tokens slot)) \<and>
     length (tokens slot) \<le> 10"

definition has_doctor :: "state \<Rightarrow> nat \<Rightarrow> bool" where
  "has_doctor s r \<longleftrightarrow> map_of (doctors s) (t_doctorId (objs s r)) \<noteq> None"

definition engine_inv :: "state \<Rightarrow> nat list \<Rightarrow> bool" where
  "engine_inv s pending \<longleftrightarrow>
     (\<forall>slot\<in>set (all_slots s). slot_ok slot) \<and>
     distinct (occupants s @ pending) \<and>
     (\<forall>r\<in>set (occupants s) \<union> set pending \<union> set (waitingQueue s) \<union> ran (tokens_reg s).
        r < nextRef s \<and> has_doctor s r) \<and>
     (\<forall>r<nextRef s. tid (objs s r) = r) \<and>
     (\<forall>k\<in>dom (tokens_reg s). k < nextRef s)"

text \<open>The fields of a Token object that no assignment of the engine changes.\<close>

definition same_tokens :: "state \<Rightarrow> state \<Rightarrow> bool" where
  "same_tokens s s' \<longleftrightarrow>
     tokens_reg s' = tokens_reg s \<and> nextRef s' = nextRef s \<and>
     map fst (doctors s') = map fst (doctors s) \<and>
     (\<forall>r. tid (objs s' r) = tid (objs s r) \<and> priority (objs s' r) = priority (objs s r) \<and>
          t_doctorId (objs s' r) = t_doctorId (objs s r))"

text \<open>The object \<^verbatim>\<open>allocateToken\<close> returns when it has appended the token to the waiting queue.\<close>

definition queued_outcome :: "nat \<Rightarrow> Outcome" where
  "queued_outcome token =
     \<lparr>r_success = False, r_token = Some token,
      r_message = Some ''No slots available, added to waiting queue'', r_error = None\<rparr>"

text \<open>A doctor with the single slot 09:00, filled by ten walk-in tokens, then a priority token
  for 09:00: it preempts token 0, which waits in the queue.\<close>

definition scenario_single_preempted :: "call list" where
  "scenario_single_preempted =
     AddDoctor ''DOC002'' ''Dr. Michael Chen'' ''Cardiology'' \<lparr>wh_start = ''09:00'', wh_end = ''10:00''\<rparr>
       # replicate 10 (AllocateToken ''P001'' ''DOC002'' ''09:00'' ''walkin'')
       @ [AllocateToken ''P002'' ''DOC002'' ''09:00'' ''priority'']"

section \<open>Properties\<close>

subsection \<open>Frame facts\<close>

lemma new_Token_frame [simp]:
  "doctors (snd (new_Token p d t src prio s)) = doctors s"
  "tokens_reg (snd (new_Token p d t src prio s)) = tokens_reg s"
  "waitingQueue (snd (new_Token p d t src prio s)) = waitingQueue s"
  "fst (new_Token p d t src prio s) = nextRef s"
  "nextRef (snd (new_Token p d t src prio s)) = Suc (nextRef s)"
  "objs (snd (new_Token p d t src prio s)) (nextRef s) =
     \<lparr>tid = nextRef s, patientId = p, t_doctorId = d, slotTime = t, source = src,
      priority = prio, status = ALLOCATED\<rparr>"
  "r \<noteq> nextRef s \<Longrightarrow> objs (snd (new_Token p d t src prio s)) r = objs s r"
  by (simp_all add: new_Token_def uuid_v4_def)

subsection \<open>Statistics of an engine without slots\<close>

lemma getSystemStats_slots_append:
  "getSystemStats_slots (xs @ ys) acc = getSystemStats_slots ys (getSystemStats_slots xs acc)"
proof (induction xs arbitrary: acc)
  case Nil
  then show ?case by simp
next
  case (Cons x xs)
  obtain a b c d where "acc = (a, b, c, d)" by (cases acc)
  with Cons.IH show ?case by simp
qed

lemma getSystemStats_doctors_slots:
  "getSystemStats_doctors ds acc =
     getSystemStats_slots (concat (map (\<lambda>doctor. map snd (slots doctor)) ds)) acc"
  by (induction ds arbitrary: acc) (simp_all add: getSystemStats_slots_append)

lemma getSystemStats_all_slots:
  "getSystemStats_doctors (map snd (doctors s)) acc = getSystemStats_slots (all_slots s) acc"
  by (simp add: getSystemStats_doctors_slots all_slots_def comp_def)

text \<open>
  C3. The claim is that \<^verbatim>\<open>getSystemStats\<close> guards the division by the total capacity.
  The code does not: when no slot exists (no doctor is registered, or none has a slot) the
  total capacity is 0 and the quotient \<^verbatim>\<open>0 / 0\<close> is NaN, which the source formats as
  the text \<^verbatim>\<open>NaN%\<close>.
\<close>

theorem getSystemStats_no_slots:
  assumes "all_slots s = []"
  shows "totalCapacity (getSystemStats s) = 0 \<and> utilizationRate (getSystemStats s) = NaN"
  using assms by (simp add: getSystemStats_def getSystemStats_all_slots js_div_def)

theorem getSystemStats_no_slots_witness:
  "all_slots new_engine = [] \<and> totalDoctors (getSystemStats new_engine) = 0 \<and>
   totalCapacity (getSystemStats new_engine) = 0 \<and>
   utilizationRate (getSystemStats new_engine) = NaN"
proof -
  have e: "all_slots new_engine = []"
    by (simp add: all_slots_def new_engine_def)
  have "totalDoctors (getSystemStats new_engine) = 0"
    by (simp add: getSystemStats_def new_engine_def)
  with e getSystemStats_no_slots [OF e] show ?thesis by simp
qed

subsection \<open>Emergency insertion for a doctor that is not registered\<close>

text \<open>
  C4. The claim is that \<^verbatim>\<open>insertEmergencyToken\<close> returns an outcome for every provider id.
  \<^verbatim>\<open>allocateToken\<close> checks that the doctor exists; \<^verbatim>\<open>insertEmergencyToken\<close> does not, and
  \<^verbatim>\<open>tryAllocateToSlot\<close> reads \<^verbatim>\<open>doctor.slots\<close> of \<^verbatim>\<open>undefined\<close>: for a provider id that is
  not in the table the call throws a TypeError.
\<close>

theorem insertEmergencyToken_unknown_doctor_throws:
  assumes "map_of (doctors s) doctorId = None"
  shows "fst (insertEmergencyToken patient doctorId urgentTime s) = Inl TypeError"
  using assms
  by (simp add: insertEmergencyToken_def tryAllocateToSlot_def new_Token_def)

theorem insertEmergencyToken_unknown_doctor_witness:
  "map_of (doctors new_engine) ''DOC999'' = None \<and>
   fst (insertEmergencyToken ''P005'' ''DOC999'' ''12:00'' new_engine) = Inl TypeError"
  using insertEmergencyToken_unknown_doctor_throws [of new_engine "''DOC999''" "''P005''" "''12:00''"]
  by (simp add: new_engine_def)

subsection \<open>Cancelling a token that was preempted into the waiting queue\<close>

text \<open>
  C2. The claim is that a token whose cancellation succeeded is held by no slot and not by
  the waiting queue. \<^verbatim>\<open>cancelToken\<close> removes the token from the slot named by its
  \<^verbatim>\<open>slotTime\<close> only. In the scenario, token 0 has been preempted from the full 09:00 slot
  by a priority token and waits in the queue; cancelling it succeeds, sets its status to
  cancelled, and the replay pass that \<^verbatim>\<open>cancelToken\<close> runs places the cancelled token into
  the 10:00 slot.
\<close>

theorem cancelToken_places_cancelled_token:
  "waitingQueue (run scenario_preempted new_engine) = [0] \<and>
   tokens_reg (run scenario_preempted new_engine) 0 = Some 0 \<and>
   map_option r_success (projr_opt (fst (cancelToken 0 (run scenario_preempted new_engine)))) = Some True \<and>
   status (objs (snd (cancelToken 0 (run scenario_preempted new_engine))) 0) = CANCELLED \<and>
   map_option tokens (slot_at ''DOC001'' ''10:00'' (snd (cancelToken 0 (run scenario_preempted new_engine))))
     = Some [0]"
  by code_simp

text \<open>
  With a single slot the cancelled token 0 finds no place and stays in the waiting queue;
  when token 1 is cancelled next, the replay pass places the cancelled token 0 into the
  slot.
\<close>

lemma cancelToken_keeps_cancelled_token_queued:
  "waitingQueue (run scenario_single_preempted new_engine) = [0] \<and>
   map_option r_success (projr_opt (fst (cancelToken 0 (run scenario_single_preempted new_engine))))
     = Some True \<and>
   waitingQueue (run (scenario_single_preempted @ [CancelToken 0]) new_engine) = [0] \<and>
   status (objs (run (scenario_single_preempted @ [CancelToken 0]) new_engine) 0) = CANCELLED \<and>
   waitingQueue (run (scenario_single_preempted @ [CancelToken 0, CancelToken 1]) new_engine) = [] \<and>
   map_option tokens
     (slot_at ''DOC002'' ''09:00'' (run (scenario_single_preempted @ [CancelToken 0, CancelToken 1]) new_engine))
     = Some [2, 3, 4, 5, 6, 7, 8, 9, 10, 0] \<and>
   status (objs (run (scenario_single_preempted @ [CancelToken 0, CancelToken 1]) new_engine) 0) = CANCELLED"
  by code_simp

subsection \<open>Preemption\<close>

lemma lowest_scan_None:
  "lowest_scan heap ts acc p = None \<longleftrightarrow> acc = None \<and> (\<forall>t\<in>set ts. p \<le> priority (heap t))"
  by (induction ts arbitrary: acc p) (auto simp: not_less)

lemma lowest_scan_Some:
  assumes "lowest_scan heap ts acc p = Some y"
  shows "(acc = Some y \<and> (\<forall>t\<in>set ts. p \<le> priority (heap t))) \<or>
         (\<exists>pre post. ts = pre @ y # post \<and> priority (heap y) < p \<and>
            (\<forall>t\<in>set pre. priority (heap y) < priority (heap t)) \<and>
            (\<forall>t\<in>set post. priority (heap y) \<le> priority (heap t)))"
  using assms
proof (induction ts arbitrary: acc p)
  case Nil
  then show ?case by simp
next
  case (Cons x xs)
  show ?case
  proof (cases "priority (heap x) < p")
    case True
    with Cons.prems have run: "lowest_scan heap xs (Some x) (priority (heap x)) = Some y"
      by simp
    from Cons.IH [OF run] show ?thesis
    proof
      assume "Some x = Some y \<and> (\<forall>t\<in>set xs. priority (heap x) \<le> priority (heap t))"
      then have "x # xs = [] @ y # xs \<and> priority (heap y) < p \<and>
          (\<forall>t\<in>set []. priority (heap y) < priority (heap t)) \<and>
          (\<forall>t\<in>set xs. priority (heap y) \<le> priority (heap t))"
        using True by auto
      then show ?thesis by blast
    next
      assume "\<exists>pre post. xs = pre @ y # post \<and> priority (heap y) < priority (heap x) \<and>
            (\<forall>t\<in>set pre. priority (heap y) < priority (heap t)) \<and>
            (\<forall>t\<in>set post. priority (heap y) \<le> priority (heap t))"
      then obtain pre post where h: "xs = pre @ y # post" "priority (heap y) < priority (heap x)"
        "\<forall>t\<in>set pre. priority (heap y) < priority (heap t)"
        "\<forall>t\<in>set post. priority (heap y) \<le> priority (heap t)"
        by blast
      then have "x # xs = (x # pre) @ y # post \<and> priority (heap y) < p \<and>
          (\<forall>t\<in>set (x # pre). priority (heap y) < priority (heap t)) \<and>
          (\<forall>t\<in>set post. priority (heap y) \<le> priority (heap t))"
        using True by simp
      then show ?thesis by blast
    qed
  next
    case False
    with Cons.prems have run: "lowest_scan heap xs acc p = Some y"
      by simp
    from Cons.IH [OF run] show ?thesis
    proof
      assume "acc = Some y \<and> (\<forall>t\<in>set xs. p \<le> priority (heap t))"
      then show ?thesis using False by simp
    next
      assume "\<exists>pre post. xs = pre @ y # post \<and> priority (heap y) < p \<and>
            (\<forall>t\<in>set pre. priority (heap y) < priority (heap t)) \<and>
            (\<forall>t\<in>set post. priority (heap y) \<le> priority (heap t))"
      then obtain pre post where h: "xs = pre @ y # post" "priority (heap y) < p"
        "\<forall>t\<in>set pre. priority (heap y) < priority (heap t)"
        "\<forall>t\<in>set post. priority (heap y) \<le> priority (heap t)"
        by blast
      then have "x # xs = (x # pre) @ y # post \<and> priority (heap y) < p \<and>
          (\<forall>t\<in>set (x # pre). priority (heap y) < priority (heap t)) \<and>
          (\<forall>t\<in>set post. priority (heap y) \<le> priority (heap t))"
        using False by simp
      then show ?thesis by blast
    qed
  qed
qed

lemma findIndex_first:
  assumes "p y" and "\<forall>t\<in>set pre. \<not> p t"
  shows "findIndex p (pre @ y # post) = Some (length pre)"
  using assms by (induction pre) auto

lemma findIndex_None: "findIndex p xs = None \<longleftrightarrow> (\<forall>x\<in>set xs. \<not> p x)"
  by (induction xs) (auto split: option.splits)

lemma removeToken_distinct:
  assumes "tokens slot = pre @ y # post"
    and "distinct (map (\<lambda>t. tid (heap t)) (tokens slot))"
  shows "removeToken heap (tid (heap y)) slot =
           (True, slot\<lparr>tokens := pre @ post, availableCapacity := availableCapacity slot + 1\<rparr>)"
proof -
  have "distinct (map (\<lambda>t. tid (heap t)) pre @ tid (heap y) # map (\<lambda>t. tid (heap t)) post)"
    using assms by simp
  then have "tid (heap y) \<notin> set (map (\<lambda>t. tid (heap t)) pre)"
    by simp
  then have "\<forall>t\<in>set pre. tid (heap t) \<noteq> tid (heap y)"
    by (auto simp: image_iff)
  then have "findIndex (\<lambda>t. tid (heap t) = tid (heap y)) (tokens slot) = Some (length pre)"
    using assms(1) findIndex_first [of "\<lambda>t. tid (heap t) = tid (heap y)" y pre post] by simp
  then show ?thesis
    by (simp add: removeToken_def assms(1))
qed

text \<open>
  C5. Preemption evicts the occupant \<open>y\<close> with the lowest priority, the first one in scan
  order among those of equal priority, and only when that priority is strictly below the
  incoming token's: every occupant before \<open>y\<close> has a strictly higher priority than \<open>y\<close>,
  every occupant after it has at least the priority of \<open>y\<close>, and \<open>y\<close> is appended to the
  waiting queue. Preemption succeeds exactly when some occupant has a strictly lower
  priority than the incoming token, and without it slot and state are unchanged. When the
  occupants have distinct ids and the stored capacity is not negative, the slot afterwards
  holds the other occupants in their order, followed by the incoming token.
\<close>

theorem tryBump_selects_lowest:
  assumes "tryBumpLowerPriorityToken slot newToken s = (r, slot', s')"
  shows "(r \<longleftrightarrow> (\<exists>t\<in>set (tokens slot). priority (objs s t) < priority (objs s newToken))) \<and>
         (r \<longrightarrow> (\<exists>pre y post. tokens slot = pre @ y # post \<and>
                 priority (objs s y) < priority (objs s newToken) \<and>
                 (\<forall>t\<in>set pre. priority (objs s y) < priority (objs s t)) \<and>
                 (\<forall>t\<in>set post. priority (objs s y) \<le> priority (objs s t)) \<and>
                 waitingQueue s' = waitingQueue s @ [y] \<and>
                 (distinct (map (\<lambda>t. tid (objs s t)) (tokens slot)) \<and> 0 \<le> availableCapacity slot
                    \<longrightarrow> tokens slot' = pre @ post @ [newToken]))) \<and>
         (\<not> r \<longrightarrow> slot' = slot \<and> s' = s)"
proof (cases "lowest_scan (objs s) (tokens slot) None (priority (objs s newToken))")
  case None
  then have "\<forall>t\<in>set (tokens slot). priority (objs s newToken) \<le> priority (objs s t)"
    by (simp add: lowest_scan_None)
  moreover have "\<not> r \<and> slot' = slot \<and> s' = s"
    using assms None by (simp add: tryBumpLowerPriorityToken_def)
  ultimately show ?thesis by (auto simp: not_less)
next
  case (Some y)
  from lowest_scan_Some [OF Some] obtain pre post where
    h: "tokens slot = pre @ y # post" "priority (objs s y) < priority (objs s newToken)"
       "\<forall>t\<in>set pre. priority (objs s y) < priority (objs s t)"
       "\<forall>t\<in>set post. priority (objs s y) \<le> priority (objs s t)"
    by auto
  have r: "r" and q: "waitingQueue s' = waitingQueue s @ [y]"
    and sl: "slot' = snd (addToken newToken (snd (removeToken (objs s) (tid (objs s y)) slot)))"
    using assms Some by (auto simp: tryBumpLowerPriorityToken_def Let_def)
  have content: "tokens slot' = pre @ post @ [newToken]"
    if "distinct (map (\<lambda>t. tid (objs s t)) (tokens slot))" "0 \<le> availableCapacity slot"
    using removeToken_distinct [OF h(1) that(1)] that(2) sl by (simp add: addToken_def)
  have ex: "\<exists>t\<in>set (tokens slot). priority (objs s t) < priority (objs s newToken)"
    using h(1,2) by auto
  from h q content have "\<exists>pre y post. tokens slot = pre @ y # post \<and>
                 priority (objs s y) < priority (objs s newToken) \<and>
                 (\<forall>t\<in>set pre. priority (objs s y) < priority (objs s t)) \<and>
                 (\<forall>t\<in>set post. priority (objs s y) \<le> priority (objs s t)) \<and>
                 waitingQueue s' = waitingQueue s @ [y] \<and>
                 (distinct (map (\<lambda>t. tid (objs s t)) (tokens slot)) \<and> 0 \<le> availableCapacity slot
                    \<longrightarrow> tokens slot' = pre @ post @ [newToken])"
    by blast
  with r ex show ?thesis by blast
qed

theorem tryBump_selects_lowest_witness:
  "fst (tryBumpLowerPriorityToken scenario_mixed_slot 10 scenario_mixed_state) \<and>
   tokens scenario_mixed_slot = [0, 1, 2, 3, 4, 5, 6, 7, 8, 9] \<and>
   map (\<lambda>t. priority (objs scenario_mixed_state t)) [0, 1, 2, 3, 4, 5, 6, 7, 8, 9, 10]
     = [4, 2, 2, 2, 2, 2, 2, 2, 2, 2, 8] \<and>
   waitingQueue (snd (snd (tryBumpLowerPriorityToken scenario_mixed_slot 10 scenario_mixed_state))) = [1] \<and>
   tokens (fst (snd (tryBumpLowerPriorityToken scenario_mixed_slot 10 scenario_mixed_state)))
     = [0, 2, 3, 4, 5, 6, 7, 8, 9, 10] \<and>
   (\<exists>t\<in>set (tokens scenario_mixed_slot).
      priority (objs scenario_mixed_state t) < priority (objs scenario_mixed_state 10))"
proof -
  let ?res = "tryBumpLowerPriorityToken scenario_mixed_slot 10 scenario_mixed_state"
  have r: "fst ?res" by code_simp
  have t: "tokens scenario_mixed_slot = [0, 1, 2, 3, 4, 5, 6, 7, 8, 9]" by code_simp
  have p: "map (\<lambda>t. priority (objs scenario_mixed_state t)) [0, 1, 2, 3, 4, 5, 6, 7, 8, 9, 10]
     = [4, 2, 2, 2, 2, 2, 2, 2, 2, 2, 8]" by code_simp
  have q: "waitingQueue (snd (snd ?res)) = [1]" by code_simp
  have c: "tokens (fst (snd ?res)) = [0, 2, 3, 4, 5, 6, 7, 8, 9, 10]" by code_simp
  have e: "?res = (True, fst (snd ?res), snd (snd ?res))"
    using r by (simp add: prod_eq_iff)
  from tryBump_selects_lowest [OF e]
  have "\<exists>t\<in>set (tokens scenario_mixed_slot).
      priority (objs scenario_mixed_state t) < priority (objs scenario_mixed_state 10)"
    by simp
  with r t p q c show ?thesis by simp
qed

subsection \<open>Alternative-slot search\<close>

lemma findAlternativeSlot_loop_find:
  "findAlternativeSlot_loop heap doctor doctorId hour prio offsets =
     find (candidate_eligible heap doctor doctorId prio)
       (map (\<lambda>offset. padStart2 (js_toString (map_option (\<lambda>h. h + offset) hour)) @ '':00'') offsets)"
  by (induction offsets)
     (auto simp: candidate_eligible_def canBumpTokenInSlot_def list_ex_iff Let_def
           split: option.splits)

text \<open>
  C7. For a registered doctor, \<^verbatim>\<open>findAlternativeSlot\<close> returns the first of the candidate
  times at the offsets -2, -1, +1, +2 from the preferred hour, in that order, whose slot
  exists and has a positive \<^verbatim>\<open>availableCapacity\<close> or an occupant of strictly lower
  priority than the requester, and none when no candidate qualifies. The witness shows the
  search stopping at the slot two hours earlier although the slot one hour earlier
  qualifies as well.
\<close>

theorem findAlternativeSlot_first_match:
  assumes "map_of (doctors s) doctorId = Some doctor"
  shows "findAlternativeSlot doctorId preferredTime prio s =
           Inr (findAlternative_spec (objs s) doctor doctorId preferredTime prio)"
  using assms
  by (simp add: findAlternativeSlot_def findAlternative_spec_def candidate_times_def
      timeRange_def findAlternativeSlot_loop_find)

theorem findAlternativeSlot_first_match_witness:
  "\<exists>doctor. map_of (doctors (run scenario_full new_engine)) ''DOC001'' = Some doctor \<and>
     candidate_times ''11:00'' = [''09:00'', ''10:00'', ''12:00'', ''13:00''] \<and>
     candidate_eligible (objs (run scenario_full new_engine)) doctor ''DOC001'' 4 ''09:00'' \<and>
     candidate_eligible (objs (run scenario_full new_engine)) doctor ''DOC001'' 4 ''10:00'' \<and>
     findAlternativeSlot ''DOC001'' ''11:00'' 4 (run scenario_full new_engine) = Inr (Some ''09:00'')"
proof -
  let ?s = "run scenario_full new_engine"
  obtain doctor where d: "map_of (doctors ?s) ''DOC001'' = Some doctor"
    by (cases "map_of (doctors ?s) ''DOC001''") (simp_all, code_simp)
  have c: "candidate_times ''11:00'' = [''09:00'', ''10:00'', ''12:00'', ''13:00'']"
    by code_simp
  have "candidate_eligible (objs ?s) (the (map_of (doctors ?s) ''DOC001'')) ''DOC001'' 4 ''09:00''"
    by code_simp
  then have e1: "candidate_eligible (objs ?s) doctor ''DOC001'' 4 ''09:00''"
    using d by simp
  have "candidate_eligible (objs ?s) (the (map_of (doctors ?s) ''DOC001'')) ''DOC001'' 4 ''10:00''"
    by code_simp
  then have e2: "candidate_eligible (objs ?s) doctor ''DOC001'' 4 ''10:00''"
    using d by simp
  have "findAlternativeSlot ''DOC001'' ''11:00'' 4 ?s = Inr (Some ''09:00'')"
    using findAlternativeSlot_first_match [OF d, of "''11:00''" 4] c e1
    by (simp add: findAlternative_spec_def)
  with d c e1 e2 show ?thesis by blast
qed

subsection \<open>Failed calls\<close>

lemma map_set_same: "map_of m k = Some v \<Longrightarrow> map_set m k v = m"
  by (induction m) (auto split: if_splits)

lemma store_slot_same:
  assumes "map_of (doctors s) d = Some doctor" and "map_of (slots doctor) k = Some slot"
  shows "store_slot d k slot s = s"
  using assms by (simp add: store_slot_def map_set_same)

lemma tryAllocateToSlot_False:
  assumes "tryAllocateToSlot token time s = (Inr False, s')"
  shows "s' = s"
  using assms
  by (auto simp: tryAllocateToSlot_def Let_def addToken_def tryBumpLowerPriorityToken_def
      store_slot_same split: option.splits if_splits prod.splits)

lemma tryAllocateToSlot_throws:
  assumes "tryAllocateToSlot token time s = (Inl e, s')"
  shows "s' = s \<and> e = TypeError \<and> map_of (doctors s) (t_doctorId (objs s token)) = None"
  using assms
  by (auto simp: tryAllocateToSlot_def Let_def split: option.splits if_splits prod.splits)

text \<open>
  C8. \<^verbatim>\<open>allocateToken\<close> with a provider id that is not registered and \<^verbatim>\<open>cancelToken\<close> with
  a token id that is not registered return their failure and the state they were called in.
  When \<^verbatim>\<open>insertEmergencyToken\<close> returns its failure, the provider table with every slot,
  the token registry and the waiting queue are as before the call, and so is every Token
  object but the one the call constructed and dropped.
\<close>

theorem failed_calls_leave_state:
  "(map_of (doctors s) doctorId = None \<longrightarrow>
      allocateToken patient doctorId preferredTime src s =
        (\<lparr>r_success = False, r_token = None, r_message = None,
          r_error = Some ''Doctor not found''\<rparr>, s)) \<and>
   (tokens_reg s tokenId = None \<longrightarrow>
      cancelToken tokenId s =
        (Inr \<lparr>r_success = False, r_token = None, r_message = Some ''Token not found'',
              r_error = None\<rparr>, s)) \<and>
   (insertEmergencyToken patient' doctorId' urgentTime s = (Inr out, s') \<and> \<not> r_success out \<longrightarrow>
      doctors s' = doctors s \<and> tokens_reg s' = tokens_reg s \<and>
      waitingQueue s' = waitingQueue s \<and> (\<forall>r. r \<noteq> nextRef s \<longrightarrow> objs s' r = objs s r))"
proof (intro conjI impI)
  assume "map_of (doctors s) doctorId = None"
  then show "allocateToken patient doctorId preferredTime src s =
        (\<lparr>r_success = False, r_token = None, r_message = None,
          r_error = Some ''Doctor not found''\<rparr>, s)"
    by (simp add: allocateToken_def allocateToken_try_def)
next
  assume "tokens_reg s tokenId = None"
  then show "cancelToken tokenId s =
        (Inr \<lparr>r_success = False, r_token = None, r_message = Some ''Token not found'',
              r_error = None\<rparr>, s)"
    by (simp add: cancelToken_def)
next
  assume a: "insertEmergencyToken patient' doctorId' urgentTime s = (Inr out, s') \<and> \<not> r_success out"
  let ?s1 = "snd (new_Token patient' doctorId' urgentTime ''emergency'' 10 s)"
  obtain res s2 where t: "tryAllocateToSlot (nextRef s) urgentTime ?s1 = (res, s2)"
    by (cases "tryAllocateToSlot (nextRef s) urgentTime ?s1")
  have "res = Inr False \<and> s2 = s'"
    using a t
    by (cases res)
       (auto simp: insertEmergencyToken_def split_beta
        split: prod.splits sum.splits if_splits)
  with t have "tryAllocateToSlot (nextRef s) urgentTime ?s1 = (Inr False, s')"
    by simp
  then have "s' = ?s1"
    by (rule tryAllocateToSlot_False)
  then show "doctors s' = doctors s" "tokens_reg s' = tokens_reg s"
    "waitingQueue s' = waitingQueue s" "\<forall>r. r \<noteq> nextRef s \<longrightarrow> objs s' r = objs s r"
    by simp_all
qed

theorem failed_calls_leave_state_witness:
  "map_of (doctors (run scenario_full new_engine)) ''DOC999'' = None \<and>
   fst (allocateToken ''P001'' ''DOC999'' ''09:00'' ''online'' (run scenario_full new_engine)) =
     \<lparr>r_success = False, r_token = None, r_message = None, r_error = Some ''Doctor not found''\<rparr> \<and>
   tokens_reg (run scenario_full new_engine) 99 = None \<and>
   doctors (snd (cancelToken 99 (run scenario_full new_engine))) = doctors (run scenario_full new_engine) \<and>
   map_option r_success (projr_opt (fst (insertEmergencyToken ''P005'' ''DOC001'' ''09:00''
       (run scenario_emergencies new_engine)))) = Some False \<and>
   doctors (snd (insertEmergencyToken ''P005'' ''DOC001'' ''09:00'' (run scenario_emergencies new_engine)))
     = doctors (run scenario_emergencies new_engine) \<and>
   waitingQueue (snd (insertEmergencyToken ''P005'' ''DOC001'' ''09:00'' (run scenario_emergencies new_engine)))
     = waitingQueue (run scenario_emergencies new_engine)"
proof -
  let ?s = "run scenario_full new_engine"
  let ?e = "run scenario_emergencies new_engine"
  let ?res = "insertEmergencyToken ''P005'' ''DOC001'' ''09:00'' ?e"
  have d: "map_of (doctors ?s) ''DOC999'' = None" by code_simp
  have t: "tokens_reg ?s 99 = None" by code_simp
  have f: "map_option r_success (projr_opt (fst ?res)) = Some False" by code_simp
  then obtain out where o: "?res = (Inr out, snd ?res)" "\<not> r_success out"
    by (cases "fst ?res") (auto simp: prod_eq_iff)
  note h = failed_calls_leave_state [where s = ?s and doctorId = "''DOC999''" and patient = "''P001''"
      and preferredTime = "''09:00''" and src = "''online''" and tokenId = 99]
  note h' = failed_calls_leave_state [where s = ?e and patient' = "''P005''" and doctorId' = "''DOC001''"
      and urgentTime = "''09:00''" and out = out and s' = "snd ?res"]
  show ?thesis using d t f o h h' by simp
qed

subsection \<open>The replay pass\<close>

lemma loop_step:
  "processWaitingQueue_loop i re st s =
     (if i < length (waitingQueue s) then
        (case visit i s of
           Thrown e s2 \<Rightarrow> (Inl e, s2)
         | Placed s2 \<Rightarrow> processWaitingQueue_loop (Suc i) (re @ [waitingQueue s ! i]) st s2
         | Kept s2 \<Rightarrow> processWaitingQueue_loop (Suc i) re (st @ [waitingQueue s ! i]) s2)
      else (Inr (re, st), s))"
  by (subst processWaitingQueue_loop.simps)
     (simp add: visit_def Let_def split: sum.splits option.splits prod.splits)

lemma loop_induct [case_names step]:
  assumes "\<And>i re st s.
      (\<And>s2. i < length (waitingQueue s) \<Longrightarrow> visit i s = Placed s2 \<Longrightarrow>
         P (Suc i) (re @ [waitingQueue s ! i]) st s2) \<Longrightarrow>
      (\<And>s2. i < length (waitingQueue s) \<Longrightarrow> visit i s = Kept s2 \<Longrightarrow>
         P (Suc i) re (st @ [waitingQueue s ! i]) s2) \<Longrightarrow>
      P i re st s"
  shows "P i re st s"
proof (induction i re st s rule: processWaitingQueue_loop.induct)
  case (1 i re st s)
  show ?case
  proof (rule assms)
    fix s2
    assume lt: "i < length (waitingQueue s)" and v: "visit i s = Placed s2"
    from v show "P (Suc i) (re @ [waitingQueue s ! i]) st s2"
      using lt "1.IH"(2)
      by (auto simp: visit_def Let_def split: sum.splits option.splits prod.splits if_splits)
  next
    fix s2
    assume lt: "i < length (waitingQueue s)" and v: "visit i s = Kept s2"
    from v show "P (Suc i) re (st @ [waitingQueue s ! i]) s2"
      using lt "1.IH"(1,3,4)
      by (auto simp: visit_def Let_def split: sum.splits option.splits prod.splits if_splits)
  qed
qed


lemma visit_Placed_queue:
  assumes "visit i s = Placed s2"
  shows "waitingQueue s2 = waitingQueue s \<or> (\<exists>y. waitingQueue s2 = waitingQueue s @ [y])"
  using assms
  by (auto simp: visit_def Let_def split: sum.splits option.splits prod.splits if_splits
      dest!: tryAllocateToSlot_queue)

lemma visit_Kept_queue:
  assumes "visit i s = Kept s2"
  shows "waitingQueue s2 = waitingQueue s"
  using assms
  by (auto simp: visit_def Let_def split: sum.splits option.splits prod.splits if_splits
      dest!: tryAllocateToSlot_False)

lemma prefix_nth_drop:
  assumes "prefix q q'" and "i < length q"
  shows "drop i q' = q ! i # drop (Suc i) q'"
proof -
  from assms obtain r where "q' = q @ r" by (auto simp: prefix_def)
  with assms(2) show ?thesis
    by (simp add: Cons_nth_drop_Suc nth_append)
qed

lemma prefix_drop_filter_subseq:
  assumes "prefix q q'"
  shows "subseq (filter p (drop n q)) (filter p (drop n q'))"
proof -
  from assms obtain r where "q' = q @ r" by (auto simp: prefix_def)
  then have "prefix (filter p (drop n q)) (filter p (drop n q'))"
    by simp
  then show ?thesis by (rule prefix_imp_subseq)
qed

lemma loop_order:
  assumes "processWaitingQueue_loop i re st s = (Inr (re', st'), s')"
  shows "prefix (waitingQueue s) (waitingQueue s') \<and>
         (\<exists>rs zs. re' = re @ rs \<and> st' = st @ zs \<and>
            subseq zs (drop i (waitingQueue s')) \<and>
            mset rs + mset zs = mset (drop i (waitingQueue s')) \<and>
            subseq (filter (\<lambda>t. t \<notin> set re') (drop i (waitingQueue s))) zs)"
  using assms
proof (induction i re st s rule: loop_induct)
  case (step i re st s)
  show ?case
  proof (cases "i < length (waitingQueue s)")
    case False
    with step.prems have "re' = re" "st' = st" "s' = s"
      by (simp_all add: loop_step [of i re st s])
    with False show ?thesis by simp
  next
    case True
    let ?t = "waitingQueue s ! i"
    have cut: "drop i (waitingQueue s) = ?t # drop (Suc i) (waitingQueue s)"
      using True by (simp add: Cons_nth_drop_Suc)
    show ?thesis
    proof (cases "visit i s")
      case (Thrown e s2)
      with True step.prems show ?thesis by (simp add: loop_step [of i re st s])
    next
      case (Placed s2)
      with True step.prems
      have run: "processWaitingQueue_loop (Suc i) (re @ [?t]) st s2 = (Inr (re', st'), s')"
        by (simp add: loop_step [of i re st s])
      from step.IH(1) [OF True Placed run] obtain rs zs where
        ih: "prefix (waitingQueue s2) (waitingQueue s')" "re' = (re @ [?t]) @ rs" "st' = st @ zs"
            "subseq zs (drop (Suc i) (waitingQueue s'))"
            "mset rs + mset zs = mset (drop (Suc i) (waitingQueue s'))"
            "subseq (filter (\<lambda>t. t \<notin> set re') (drop (Suc i) (waitingQueue s2))) zs"
        by blast
      have p2: "prefix (waitingQueue s) (waitingQueue s2)"
        using visit_Placed_queue [OF Placed] by auto
      then have p: "prefix (waitingQueue s) (waitingQueue s')"
        using ih(1) by (rule prefix_order.trans)
      have cut': "drop i (waitingQueue s') = ?t # drop (Suc i) (waitingQueue s')"
        using prefix_nth_drop [OF p True] .
      have "subseq (filter (\<lambda>t. t \<notin> set re') (drop (Suc i) (waitingQueue s)))
              (filter (\<lambda>t. t \<notin> set re') (drop (Suc i) (waitingQueue s2)))"
        using p2 by (rule prefix_drop_filter_subseq)
      then have f: "subseq (filter (\<lambda>t. t \<notin> set re') (drop (Suc i) (waitingQueue s))) zs"
        using ih(6) by (rule subseq_order.trans)
      have z: "subseq zs (drop i (waitingQueue s'))"
        unfolding cut' using ih(4) by (rule list_emb_Cons)
      have "?t \<in> set re'"
        using ih(2) by simp
      then have f': "subseq (filter (\<lambda>t. t \<notin> set re') (drop i (waitingQueue s))) zs"
        using f by (simp add: cut)
      have "re' = re @ (?t # rs) \<and> st' = st @ zs \<and>
            subseq zs (drop i (waitingQueue s')) \<and>
            mset (?t # rs) + mset zs = mset (drop i (waitingQueue s')) \<and>
            subseq (filter (\<lambda>t. t \<notin> set re') (drop i (waitingQueue s))) zs"
        using ih(2,3,5) z f' by (simp add: cut')
      with p show ?thesis by blast
    next
      case (Kept s2)
      with True step.prems
      have run: "processWaitingQueue_loop (Suc i) re (st @ [?t]) s2 = (Inr (re', st'), s')"
        by (simp add: loop_step [of i re st s])
      from step.IH(2) [OF True Kept run] obtain rs zs where
        ih: "prefix (waitingQueue s2) (waitingQueue s')" "re' = re @ rs" "st' = (st @ [?t]) @ zs"
            "subseq zs (drop (Suc i) (waitingQueue s'))"
            "mset rs + mset zs = mset (drop (Suc i) (waitingQueue s'))"
            "subseq (filter (\<lambda>t. t \<notin> set re') (drop (Suc i) (waitingQueue s2))) zs"
        by blast
      have q2: "waitingQueue s2 = waitingQueue s"
        using visit_Kept_queue [OF Kept] .
      with ih(1) have p: "prefix (waitingQueue s) (waitingQueue s')"
        by simp
      have cut': "drop i (waitingQueue s') = ?t # drop (Suc i) (waitingQueue s')"
        using prefix_nth_drop [OF p True] .
      have z: "subseq (?t # zs) (drop i (waitingQueue s'))"
        unfolding cut' using ih(4) by simp
      have f: "subseq (filter (\<lambda>t. t \<notin> set re') (drop (Suc i) (waitingQueue s))) zs"
        using ih(6) q2 by simp
      have f': "subseq (filter (\<lambda>t. t \<notin> set re') (drop i (waitingQueue s))) (?t # zs)"
      proof (cases "?t \<in> set re'")
        case True
        then show ?thesis
          unfolding cut using f by (simp add: list_emb_Cons)
      next
        case False
        then show ?thesis
          unfolding cut using f by simp
      qed
      have "re' = re @ rs \<and> st' = st @ (?t # zs) \<and>
            subseq (?t # zs) (drop i (waitingQueue s')) \<and>
            mset rs + mset (?t # zs) = mset (drop i (waitingQueue s')) \<and>
            subseq (filter (\<lambda>t. t \<notin> set re') (drop i (waitingQueue s))) (?t # zs)"
        using ih(2,3,5) z f' by (simp add: cut')
      then show ?thesis using p by blast
    qed
  qed
qed


lemma processWaitingQueue_Inr:
  assumes "processWaitingQueue s = (Inr reallocated, s')"
  shows "\<exists>s1. processWaitingQueue_loop 0 [] [] s = (Inr (reallocated, waitingQueue s'), s1) \<and>
              s' = s1\<lparr>waitingQueue := waitingQueue s'\<rparr>"
  using assms
  by (auto simp: processWaitingQueue_def split: prod.splits sum.splits)

text \<open>
  C1, as amended. The replay is one pass from left to right over the waiting queue as it
  stands during the pass: the tokens that preemption appends while the pass runs are
  entries of the array the loop iterates, so the same call visits them too. Every entry of
  that array, the appended ones included, ends in the returned list of reallocated tokens
  or in the new waiting queue.
\<close>

theorem replay_visits_evicted_tokens:
  assumes "processWaitingQueue s = (Inr reallocated, s')"
  shows "prefix (waitingQueue s) (waitingQueue (snd (processWaitingQueue_loop 0 [] [] s))) \<and>
         mset reallocated + mset (waitingQueue s') =
           mset (waitingQueue (snd (processWaitingQueue_loop 0 [] [] s)))"
proof -
  from processWaitingQueue_Inr [OF assms] obtain s1 where
    run: "processWaitingQueue_loop 0 [] [] s = (Inr (reallocated, waitingQueue s'), s1)"
    by blast
  from loop_order [OF run] show ?thesis
    by (auto simp: run)
qed

theorem replay_visits_evicted_tokens_witness:
  "waitingQueue (run scenario_queued new_engine) = [10] \<and>
   waitingQueue (snd (processWaitingQueue_loop 0 [] [] (run scenario_queued new_engine))) = [10, 0] \<and>
   fst (processWaitingQueue (run scenario_queued new_engine)) = Inr [10, 0] \<and>
   waitingQueue (snd (processWaitingQueue (run scenario_queued new_engine))) = [] \<and>
   mset [10, 0 :: nat] + mset (waitingQueue (snd (processWaitingQueue (run scenario_queued new_engine))))
     = mset (waitingQueue (snd (processWaitingQueue_loop 0 [] [] (run scenario_queued new_engine))))"
proof -
  let ?s = "run scenario_queued new_engine"
  have q: "waitingQueue ?s = [10]" by code_simp
  have l: "waitingQueue (snd (processWaitingQueue_loop 0 [] [] ?s)) = [10, 0]" by code_simp
  have r: "fst (processWaitingQueue ?s) = Inr [10, 0]" by code_simp
  have a: "waitingQueue (snd (processWaitingQueue ?s)) = []" by code_simp
  have e: "processWaitingQueue ?s = (Inr [10, 0], snd (processWaitingQueue ?s))"
    using r by (simp add: prod_eq_iff)
  from replay_visits_evicted_tokens [OF e] q l r a show ?thesis by simp
qed

text \<open>
  C1, as stated, fails: token 0 is not in the queue before the call, the replay evicts it
  from the 09:00 slot to place the priority token 10, and the same call then places token 0
  into the 10:00 slot and returns it among the reallocated tokens.
\<close>

theorem replay_places_evicted_token_in_same_call:
  "waitingQueue (run scenario_queued new_engine) = [10] \<and>
   map_option tokens (slot_at ''DOC001'' ''09:00'' (run scenario_queued new_engine))
     = Some [0, 1, 2, 3, 4, 5, 6, 7, 8, 9] \<and>
   map_option tokens (slot_at ''DOC001'' ''10:00'' (run scenario_queued new_engine)) = Some [] \<and>
   fst (processWaitingQueue (run scenario_queued new_engine)) = Inr [10, 0] \<and>
   map_option tokens (slot_at ''DOC001'' ''09:00'' (snd (processWaitingQueue (run scenario_queued new_engine))))
     = Some [1, 2, 3, 4, 5, 6, 7, 8, 9, 10] \<and>
   map_option tokens (slot_at ''DOC001'' ''10:00'' (snd (processWaitingQueue (run scenario_queued new_engine))))
     = Some [0] \<and>
   waitingQueue (snd (processWaitingQueue (run scenario_queued new_engine))) = []"
  by code_simp

text \<open>
  C9. The waiting queue is never sorted. A preemption appends the evicted occupant at the
  tail of the queue. A replay pass only appends to the queue it iterates, the new queue is
  a subsequence of that array (the queue before the pass followed by the tokens evicted
  during the pass, in the order of their eviction), and the tokens of the queue before the
  pass that the pass did not place keep their relative order in the new queue.
\<close>

theorem replay_keeps_order:
  assumes "processWaitingQueue s = (Inr reallocated, s')"
  shows "prefix (waitingQueue s) (waitingQueue (snd (processWaitingQueue_loop 0 [] [] s))) \<and>
         subseq (waitingQueue s') (waitingQueue (snd (processWaitingQueue_loop 0 [] [] s))) \<and>
         subseq (filter (\<lambda>t. t \<notin> set reallocated) (waitingQueue s)) (waitingQueue s') \<and>
         (\<forall>slot newToken s0 slot' s0'.
            tryBumpLowerPriorityToken slot newToken s0 = (True, slot', s0') \<longrightarrow>
            (\<exists>y\<in>set (tokens slot). waitingQueue s0' = waitingQueue s0 @ [y]))"
proof -
  from processWaitingQueue_Inr [OF assms] obtain s1 where
    run: "processWaitingQueue_loop 0 [] [] s = (Inr (reallocated, waitingQueue s'), s1)"
    by blast
  from loop_order [OF run]
  have "prefix (waitingQueue s) (waitingQueue (snd (processWaitingQueue_loop 0 [] [] s)))"
    "subseq (waitingQueue s') (waitingQueue (snd (processWaitingQueue_loop 0 [] [] s)))"
    "subseq (filter (\<lambda>t. t \<notin> set reallocated) (waitingQueue s)) (waitingQueue s')"
    by (auto simp: run)
  moreover have "\<forall>slot newToken s0 slot' s0'.
            tryBumpLowerPriorityToken slot newToken s0 = (True, slot', s0') \<longrightarrow>
            (\<exists>y\<in>set (tokens slot). waitingQueue s0' = waitingQueue s0 @ [y])"
    using tryBump_queue by blast
  ultimately show ?thesis by blast
qed

theorem replay_keeps_order_witness:
  "waitingQueue (run scenario_single new_engine) = [10, 11, 12] \<and>
   waitingQueue (snd (processWaitingQueue_loop 0 [] [] (run scenario_single new_engine))) = [10, 11, 12, 0] \<and>
   fst (processWaitingQueue (run scenario_single new_engine)) = Inr [11] \<and>
   waitingQueue (snd (processWaitingQueue (run scenario_single new_engine))) = [10, 12, 0] \<and>
   subseq (filter (\<lambda>t. t \<notin> set [11]) (waitingQueue (run scenario_single new_engine)))
     (waitingQueue (snd (processWaitingQueue (run scenario_single new_engine))))"
proof -
  let ?s = "run scenario_single new_engine"
  have q: "waitingQueue ?s = [10, 11, 12]" by code_simp
  have l: "waitingQueue (snd (processWaitingQueue_loop 0 [] [] ?s)) = [10, 11, 12, 0]" by code_simp
  have r: "fst (processWaitingQueue ?s) = Inr [11]" by code_simp
  have a: "waitingQueue (snd (processWaitingQueue ?s)) = [10, 12, 0]" by code_simp
  have e: "processWaitingQueue ?s = (Inr [11], snd (processWaitingQueue ?s))"
    using r by (simp add: prod_eq_iff)
  from replay_keeps_order [OF e]
  have "subseq (filter (\<lambda>t. t \<notin> set [11]) (waitingQueue ?s)) (waitingQueue (snd (processWaitingQueue ?s)))"
    by blast
  with q l r a show ?thesis by simp
qed

subsection \<open>The invariant of the engine\<close>

lemma map_set_split:
  assumes "map_of m k = Some v"
  shows "\<exists>pre post. m = pre @ (k, v) # post \<and> map_set m k v' = pre @ (k, v') # post"
  using assms
proof (induction m)
  case Nil
  then show ?case by simp
next
  case (Cons e m)
  obtain k0 v0 where e: "e = (k0, v0)" by (cases e)
  show ?case
  proof (cases "k0 = k")
    case True
    with Cons.prems e have "e # m = [] @ (k, v) # m \<and> map_set (e # m) k v' = [] @ (k, v') # m"
      by simp
    then show ?thesis by blast
  next
    case False
    with Cons.prems e have "map_of m k = Some v" by simp
    from Cons.IH [OF this] obtain pre post where
      "m = pre @ (k, v) # post" "map_set m k v' = pre @ (k, v') # post"
      by blast
    with False e have "e # m = (e # pre) @ (k, v) # post \<and>
        map_set (e # m) k v' = (e # pre) @ (k, v') # post"
      by simp
    then show ?thesis by blast
  qed
qed

lemma map_set_new:
  assumes "map_of m k = None"
  shows "map_set m k v' = m @ [(k, v')]"
  using assms by (induction m) (auto split: if_splits)

lemma map_set_keys:
  "map_of m k = Some v \<Longrightarrow> map fst (map_set m k v') = map fst m"
  by (induction m) (auto split: if_splits)

lemma map_of_None_keys: "map_of m k = None \<longleftrightarrow> k \<notin> set (map fst m)"
  by (simp add: map_of_eq_None_iff)

lemma store_slot_split:
  assumes "map_of (doctors s) d = Some doctor" and "map_of (slots doctor) k = Some slot"
  shows "\<exists>pre post. all_slots s = pre @ slot # post \<and>
           all_slots (store_slot d k slot' s) = pre @ slot' # post"
proof -
  from map_set_split [OF assms(2), of slot'] obtain sp sq where
    sl: "slots doctor = sp @ (k, slot) # sq" "map_set (slots doctor) k slot' = sp @ (k, slot') # sq"
    by blast
  from map_set_split [OF assms(1), of "doctor\<lparr>slots := map_set (slots doctor) k slot'\<rparr>"]
  obtain dp dq where
    dl: "doctors s = dp @ (d, doctor) # dq"
      "map_set (doctors s) d (doctor\<lparr>slots := map_set (slots doctor) k slot'\<rparr>) =
         dp @ (d, doctor\<lparr>slots := map_set (slots doctor) k slot'\<rparr>) # dq"
    by blast
  let ?f = "\<lambda>entry. map snd (slots (snd entry))"
  let ?pre = "concat (map ?f dp) @ map snd sp"
  let ?post = "map snd sq @ concat (map ?f dq)"
  have "all_slots s = ?pre @ slot # ?post"
    by (simp add: all_slots_def dl(1) sl(1))
  moreover have "all_slots (store_slot d k slot' s) = ?pre @ slot' # ?post"
    using assms(1) dl(2) by (simp add: all_slots_def store_slot_def sl(2))
  ultimately show ?thesis by blast
qed

lemma store_slot_keys:
  "map fst (doctors (store_slot d k slot' s)) = map fst (doctors s)"
  by (auto simp: store_slot_def map_set_keys split: option.splits)

lemma store_slot_has_doctor:
  "map_of (doctors (store_slot d k slot' s)) x = None \<longleftrightarrow> map_of (doctors s) x = None"
  using store_slot_keys [of d k slot' s] by (simp only: map_of_None_keys)


lemma occupants_split:
  assumes "all_slots s = pre @ slot # post"
  shows "occupants s = concat (map tokens pre) @ tokens slot @ concat (map tokens post)"
  using assms by (simp add: occupants_def)

lemma tryAllocateToSlot_placed:
  assumes run: "tryAllocateToSlot token time s = (Inr True, s')"
    and ok: "\<forall>slot\<in>set (all_slots s). slot_ok slot"
    and ids: "\<forall>r\<in>set (occupants s). tid (objs s r) = r"
    and dist: "distinct (occupants s)"
  shows "(\<forall>slot\<in>set (all_slots s'). slot_ok slot) \<and>
         mset (occupants s') + mset (waitingQueue s') =
           mset (occupants s) + mset (waitingQueue s) + {#token#} \<and>
         (waitingQueue s' = waitingQueue s \<or>
          (\<exists>y\<in>set (occupants s). waitingQueue s' = waitingQueue s @ [y]))"
proof -
  let ?d = "t_doctorId (objs s token)"
  let ?k = "slotKeyOf ?d time"
  from run obtain doctor where d: "map_of (doctors s) ?d = Some doctor"
    by (auto simp: tryAllocateToSlot_def split: option.splits)
  from run d obtain slot where sl: "map_of (slots doctor) ?k = Some slot"
    by (auto simp: tryAllocateToSlot_def Let_def split: option.splits)
  from store_slot_split [OF d sl] obtain pre post where
    sp: "all_slots s = pre @ slot # post"
        "\<And>slot'. \<exists>pre' post'. all_slots (store_slot ?d ?k slot' s) = pre' @ slot' # post'"
    by blast
  have slot_ok: "slot_ok slot" using ok sp(1) by simp
  have occ: "occupants s = concat (map tokens pre) @ tokens slot @ concat (map tokens post)"
    using sp(1) by (rule occupants_split)
  show ?thesis
  proof (cases "0 < availableCapacity slot")
    case True
    let ?slot' = "slot\<lparr>tokens := tokens slot @ [token],
                       availableCapacity := availableCapacity slot - 1\<rparr>"
    have s': "s' = store_slot ?d ?k ?slot' s"
      using run d sl True by (simp add: tryAllocateToSlot_def Let_def addToken_def)
    from store_slot_split [OF d sl, of ?slot'] obtain p q where
      pq: "all_slots s = p @ slot # q" "all_slots s' = p @ ?slot' # q"
      unfolding s' by blast
    have "slot_ok ?slot'"
      using slot_ok True by (simp add: slot_ok_def)
    then have a: "\<forall>slot\<in>set (all_slots s'). slot_ok slot"
      using ok pq by auto
    have "mset (occupants s') = mset (occupants s) + {#token#}"
      by (simp add: occupants_split [OF pq(1)] occupants_split [OF pq(2)])
    moreover have "waitingQueue s' = waitingQueue s"
      by (simp add: s')
    ultimately show ?thesis using a by simp
  next
    case False
    from run d sl False obtain victim where
      scan: "lowest_scan (objs s) (tokens slot) None (priority (objs s token)) = Some victim"
      by (auto simp: tryAllocateToSlot_def Let_def tryBumpLowerPriorityToken_def
          split: option.splits prod.splits)
    from lowest_scan_Some [OF scan] obtain p1 p2 where
      cut: "tokens slot = p1 @ victim # p2"
      by auto
    have "set (tokens slot) \<subseteq> set (occupants s)"
      by (auto simp: occ)
    moreover have "distinct (tokens slot)"
      using dist by (simp add: occ)
    ultimately have "distinct (map (\<lambda>t. tid (objs s t)) (tokens slot))"
      using ids by (simp add: distinct_map inj_on_def subset_iff)
    from removeToken_distinct [OF cut this]
    have rm: "removeToken (objs s) (tid (objs s victim)) slot =
         (True, slot\<lparr>tokens := p1 @ p2, availableCapacity := availableCapacity slot + 1\<rparr>)" .
    let ?slot' = "slot\<lparr>tokens := p1 @ p2 @ [token]\<rparr>"
    let ?s1 = "s\<lparr>waitingQueue := waitingQueue s @ [victim]\<rparr>"
    have cap: "0 \<le> availableCapacity slot"
      using slot_ok by (simp add: slot_ok_def)
    have s': "s' = store_slot ?d ?k ?slot' ?s1"
      using run d sl False scan rm cap
      by (simp add: tryAllocateToSlot_def Let_def tryBumpLowerPriorityToken_def addToken_def)
    have d1: "map_of (doctors ?s1) ?d = Some doctor" using d by simp
    from store_slot_split [OF d1 sl, of ?slot'] obtain p q where
      pq: "all_slots ?s1 = p @ slot # q" "all_slots s' = p @ ?slot' # q"
      unfolding s' by blast
    have same: "all_slots ?s1 = all_slots s" "occupants ?s1 = occupants s"
      by (simp_all add: all_slots_def occupants_def)
    have "slot_ok ?slot'"
      using slot_ok cut by (simp add: slot_ok_def)
    then have a: "\<forall>slot\<in>set (all_slots s'). slot_ok slot"
      using ok pq same by auto
    have "mset (occupants s') + {#victim#} = mset (occupants s) + {#token#}"
      using occupants_split [OF pq(1)] occupants_split [OF pq(2)] same cut by simp
    moreover have q: "waitingQueue s' = waitingQueue s @ [victim]"
      by (simp add: s')
    moreover have "victim \<in> set (occupants s)"
      using cut by (simp add: occ)
    ultimately show ?thesis using a by simp
  qed
qed

subsection \<open>What the calls do to the registry\<close>

lemma same_tokens_refl [simp]: "same_tokens s s"
  by (simp add: same_tokens_def)

lemma same_tokens_trans: "same_tokens s s1 \<Longrightarrow> same_tokens s1 s2 \<Longrightarrow> same_tokens s s2"
  by (simp add: same_tokens_def)

lemma same_tokens_set_slotTime [simp]: "same_tokens s (set_slotTime t x s)"
  by (simp add: same_tokens_def)

lemma same_tokens_set_status [simp]: "same_tokens s (set_status t x s)"
  by (simp add: same_tokens_def set_status_def)

lemma same_tokens_queue [simp]: "same_tokens s (s\<lparr>waitingQueue := q\<rparr>)"
  by (simp add: same_tokens_def)

lemma same_tokens_store_slot [simp]: "same_tokens s (store_slot d k slot s)"
  by (simp add: same_tokens_def store_slot_keys)

lemma tryAllocateToSlot_same_tokens:
  assumes "tryAllocateToSlot token time s = (res, s')"
  shows "same_tokens s s'"
proof -
  have "tokens_reg s' = tokens_reg s \<and> nextRef s' = nextRef s \<and> objs s' = objs s"
    using tryAllocateToSlot_frame [OF assms] by simp
  moreover have "map fst (doctors s') = map fst (doctors s)"
    using assms
    by (auto simp: tryAllocateToSlot_def Let_def store_slot_keys tryBumpLowerPriorityToken_def
        split: option.splits if_splits prod.splits)
  ultimately show ?thesis by (simp add: same_tokens_def)
qed

lemma visit_same_tokens:
  "case visit i s of Thrown e s2 \<Rightarrow> same_tokens s s2 | Placed s2 \<Rightarrow> same_tokens s s2
     | Kept s2 \<Rightarrow> same_tokens s s2"
proof -
  have "same_tokens s s2"
    if "tryAllocateToSlot t x (set_slotTime t x s) = (res, s2)" for t x res s2
    using same_tokens_trans [OF same_tokens_set_slotTime tryAllocateToSlot_same_tokens [OF that]] .
  then show ?thesis
    by (auto simp: visit_def Let_def split: sum.splits option.splits prod.splits)
qed

lemma loop_same_tokens:
  assumes "processWaitingQueue_loop i re st s = (res, s')"
  shows "same_tokens s s'"
  using assms
proof (induction i re st s rule: loop_induct)
  case (step i re st s)
  show ?case
  proof (cases "i < length (waitingQueue s)")
    case False
    with step.prems show ?thesis by (simp add: loop_step [of i re st s])
  next
    case True
    show ?thesis
    proof (cases "visit i s")
      case (Thrown e s2)
      with True step.prems have "s' = s2" by (simp add: loop_step [of i re st s])
      with visit_same_tokens [where i = i and s = s] Thrown show ?thesis by simp
    next
      case (Placed s2)
      with True step.prems
      have "processWaitingQueue_loop (Suc i) (re @ [waitingQueue s ! i]) st s2 = (res, s')"
        by (simp add: loop_step [of i re st s])
      from step.IH(1) [OF True Placed this] visit_same_tokens [where i = i and s = s] Placed
      show ?thesis by (auto intro: same_tokens_trans)
    next
      case (Kept s2)
      with True step.prems
      have "processWaitingQueue_loop (Suc i) re (st @ [waitingQueue s ! i]) s2 = (res, s')"
        by (simp add: loop_step [of i re st s])
      from step.IH(2) [OF True Kept this] visit_same_tokens [where i = i and s = s] Kept
      show ?thesis by (auto intro: same_tokens_trans)
    qed
  qed
qed

lemma processWaitingQueue_same_tokens: "same_tokens s (snd (processWaitingQueue s))"
proof -
  obtain res s1 where l: "processWaitingQueue_loop 0 [] [] s = (res, s1)"
    by (cases "processWaitingQueue_loop 0 [] [] s")
  from loop_same_tokens [OF l] have "same_tokens s s1" .
  moreover have "snd (processWaitingQueue s) = s1 \<or>
      (\<exists>q. snd (processWaitingQueue s) = s1\<lparr>waitingQueue := q\<rparr>)"
    by (auto simp: processWaitingQueue_def l split: sum.splits)
  ultimately show ?thesis
    by (auto intro: same_tokens_trans)
qed


lemma allocateToken_try_shape:
  assumes "allocateToken_try p d t src s = (res, s')" and "map_of (doctors s) d = Some doctor"
  shows "\<exists>s2. same_tokens (snd (new_Token p d t src (snd (getSourceConfig src)) s)) s2 \<and>
           ((\<exists>e. res = Inl e \<and> s' = s2) \<or>
            (\<exists>out. res = Inr out \<and> r_success out \<and> s' = register_token (nextRef s) s2) \<or>
            (res = Inr (queued_outcome (nextRef s)) \<and>
             s' = s2\<lparr>waitingQueue := waitingQueue s2 @ [nextRef s]\<rparr>))"
proof -
  let ?prio = "snd (getSourceConfig src)"
  let ?s1 = "snd (new_Token p d t src ?prio s)"
  obtain r1 s2 where a1: "tryAllocateToSlot (nextRef s) t ?s1 = (r1, s2)"
    by (cases "tryAllocateToSlot (nextRef s) t ?s1")
  have st2: "same_tokens ?s1 s2"
    using tryAllocateToSlot_same_tokens [OF a1] .
  show ?thesis
  proof (cases "r1 = Inr False")
    case False
    then have "(\<exists>e. res = Inl e \<and> s' = s2) \<or>
               (\<exists>out. res = Inr out \<and> r_success out \<and> s' = register_token (nextRef s) s2)"
      using assms a1
      by (cases r1) (auto simp: allocateToken_try_def split_beta Let_def split: if_splits)
    with st2 show ?thesis by blast
  next
    case True
    show ?thesis
    proof (cases "findAlternativeSlot d t ?prio s2")
      case (Inl e)
      with True assms a1 have "res = Inl e \<and> s' = s2"
        by (auto simp: allocateToken_try_def split_beta Let_def)
      with st2 show ?thesis by blast
    next
      case (Inr alt)
      show ?thesis
      proof (cases "\<exists>x. alt = Some x \<and> x \<noteq> []")
        case False
        with True Inr assms a1
        have "res = Inr (queued_outcome (nextRef s)) \<and>
              s' = s2\<lparr>waitingQueue := waitingQueue s2 @ [nextRef s]\<rparr>"
          by (cases alt) (simp_all add: allocateToken_try_def split_beta queued_outcome_def)
        with st2 show ?thesis by blast
      next
        case True
        then obtain x where x: "alt = Some x" "x \<noteq> []" by blast
        obtain r3 s4 where a3:
          "tryAllocateToSlot (nextRef s) x (set_slotTime (nextRef s) x s2) = (r3, s4)"
          by (cases "tryAllocateToSlot (nextRef s) x (set_slotTime (nextRef s) x s2)")
        have "same_tokens s2 s4"
          using same_tokens_trans [OF same_tokens_set_slotTime tryAllocateToSlot_same_tokens [OF a3]] .
        with st2 have st4: "same_tokens ?s1 s4"
          by (rule same_tokens_trans)
        have "(\<exists>e. res = Inl e \<and> s' = s4) \<or>
              (\<exists>out. res = Inr out \<and> r_success out \<and> s' = register_token (nextRef s) s4) \<or>
              (res = Inr (queued_outcome (nextRef s)) \<and>
               s' = s4\<lparr>waitingQueue := waitingQueue s4 @ [nextRef s]\<rparr>)"
        proof -
          have run: "allocateToken_try p d t src s =
              (case r3 of
                 Inl e \<Rightarrow> (Inl e, s4)
               | Inr placed \<Rightarrow>
                   if placed then
                     (Inr \<lparr>r_success = True, r_token = Some (nextRef s),
                           r_message = Some (''Token allocated to alternative slot: '' @ x),
                           r_error = None\<rparr>,
                      register_token (nextRef s) s4)
                   else (Inr (queued_outcome (nextRef s)),
                         s4\<lparr>waitingQueue := waitingQueue s4 @ [nextRef s]\<rparr>))"
            using \<open>r1 = Inr False\<close> Inr x assms(2) a1 a3
            by (cases r3) (simp_all add: allocateToken_try_def split_beta Let_def queued_outcome_def)
          show ?thesis
          proof (cases r3)
            case (Inl e)
            with run assms(1) have "res = Inl e \<and> s' = s4" by simp
            then show ?thesis by blast
          next
            case (Inr placed)
            show ?thesis
            proof (cases placed)
              case True
              with Inr run assms(1)
              have "res = Inr \<lparr>r_success = True, r_token = Some (nextRef s),
                           r_message = Some (''Token allocated to alternative slot: '' @ x),
                           r_error = None\<rparr> \<and> s' = register_token (nextRef s) s4"
                by simp
              then have "\<exists>out. res = Inr out \<and> r_success out \<and> s' = register_token (nextRef s) s4"
                by simp
              then show ?thesis by blast
            next
              case False
              with Inr run assms(1)
              have "res = Inr (queued_outcome (nextRef s)) \<and>
                    s' = s4\<lparr>waitingQueue := waitingQueue s4 @ [nextRef s]\<rparr>"
                by simp
              then show ?thesis by blast
            qed
          qed
        qed
        with st4 show ?thesis by blast
      qed
    qed
  qed
qed

lemma register_token_fresh:
  assumes "same_tokens (snd (new_Token p d t src prio s)) s2"
  shows "tokens_reg (register_token (nextRef s) s2) = (tokens_reg s)(nextRef s \<mapsto> nextRef s)"
    and "nextRef (register_token (nextRef s) s2) = Suc (nextRef s)"
  using assms by (simp_all add: register_token_def same_tokens_def)

text \<open>What a call can do to the registry: nothing, or enter the Token object it has just
  constructed under that object's id.\<close>

lemma step_registry:
  "nextRef s \<le> nextRef (step c s) \<and>
   (tokens_reg (step c s) = tokens_reg s \<or>
    (tokens_reg (step c s) = (tokens_reg s)(nextRef s \<mapsto> nextRef s) \<and>
     nextRef s < nextRef (step c s)))"
proof (cases c)
  case (AddDoctor ident name spec hours)
  then show ?thesis by (simp add: addDoctor_def)
next
  case (AllocateToken p d t src)
  obtain res s' where r: "allocateToken_try p d t src s = (res, s')"
    by (cases "allocateToken_try p d t src s")
  have s': "step c s = s'"
    using AllocateToken r by (simp add: allocateToken_def split: sum.splits)
  show ?thesis
  proof (cases "map_of (doctors s) d")
    case None
    with r have "s' = s" by (simp add: allocateToken_try_def)
    with s' show ?thesis by simp
  next
    case (Some doctor)
    from allocateToken_try_shape [OF r Some] obtain s2 where
      h: "same_tokens (snd (new_Token p d t src (snd (getSourceConfig src)) s)) s2"
         "s' = s2 \<or> s' = register_token (nextRef s) s2 \<or>
          s' = s2\<lparr>waitingQueue := waitingQueue s2 @ [nextRef s]\<rparr>"
      by blast
    have "tokens_reg s2 = tokens_reg s" "nextRef s2 = Suc (nextRef s)"
      using h(1) by (simp_all add: same_tokens_def)
    with h(2) register_token_fresh [OF h(1)] show ?thesis
      unfolding s' by auto
  qed
next
  case (InsertEmergencyToken p d t)
  let ?s1 = "snd (new_Token p d t ''emergency'' 10 s)"
  obtain r1 s2 where a1: "tryAllocateToSlot (nextRef s) t ?s1 = (r1, s2)"
    by (cases "tryAllocateToSlot (nextRef s) t ?s1")
  have st2: "same_tokens ?s1 s2"
    using tryAllocateToSlot_same_tokens [OF a1] .
  have "step c s = s2 \<or> step c s = snd (processWaitingQueue (register_token (nextRef s) s2))"
    using InsertEmergencyToken a1
    by (cases r1) (auto simp: insertEmergencyToken_def split_beta split: sum.splits prod.splits)
  moreover have "same_tokens (register_token (nextRef s) s2)
                   (snd (processWaitingQueue (register_token (nextRef s) s2)))"
    by (rule processWaitingQueue_same_tokens)
  ultimately show ?thesis
    using st2 register_token_fresh [OF st2] by (auto simp: same_tokens_def)
next
  case (CancelToken tokenId)
  have "same_tokens s (step c s)"
  proof (cases "tokens_reg s tokenId")
    case None
    with CancelToken show ?thesis by (simp add: cancelToken_def)
  next
    case (Some token)
    show ?thesis
    proof (cases "map_of (doctors s) (t_doctorId (objs s token))")
      case None
      with Some CancelToken show ?thesis by (simp add: cancelToken_def)
    next
      case (Some doctor)
      let ?k = "slotKeyOf (t_doctorId (objs s token)) (slotTime (objs s token))"
      let ?s1 = "case map_of (slots doctor) ?k of
                   Some slot \<Rightarrow> store_slot (t_doctorId (objs s token)) ?k
                                  (snd (removeToken (objs s) tokenId slot)) s
                 | None \<Rightarrow> s"
      let ?s2 = "set_status token CANCELLED ?s1"
      have "same_tokens s ?s1" by (simp split: option.splits)
      then have "same_tokens s ?s2"
        using same_tokens_set_status by (rule same_tokens_trans)
      then have "same_tokens s (snd (processWaitingQueue ?s2))"
        using processWaitingQueue_same_tokens by (rule same_tokens_trans)
      moreover have "step c s = snd (processWaitingQueue ?s2)"
        using CancelToken Some \<open>tokens_reg s tokenId = Some token\<close>
        by (simp add: cancelToken_def Let_def split: prod.splits sum.splits)
      ultimately show ?thesis by simp
    qed
  qed
  then show ?thesis by (simp add: same_tokens_def)
next
  case ProcessWaitingQueue
  then show ?thesis
    using processWaitingQueue_same_tokens [of s] by (simp add: same_tokens_def)
qed

lemma run_never_registered:
  assumes "tokens_reg s k = None" and "k < nextRef s"
  shows "tokens_reg (run calls s) k = None \<and> k < nextRef (run calls s)"
  using assms
proof (induction calls arbitrary: s)
  case Nil
  then show ?case by (simp add: run_def)
next
  case (Cons c calls)
  from step_registry [of s c] Cons.prems
  have "tokens_reg (step c s) k = None \<and> k < nextRef (step c s)"
    by auto
  then have "tokens_reg (run calls (step c s)) k = None \<and> k < nextRef (run calls (step c s))"
    using Cons.IH by blast
  then show ?case by (simp add: run_def)
qed

lemma run_registry_bounded:
  assumes "\<forall>k\<in>dom (tokens_reg s). k < nextRef s"
  shows "\<forall>k\<in>dom (tokens_reg (run calls s)). k < nextRef (run calls s)"
  using assms
proof (induction calls arbitrary: s)
  case Nil
  then show ?case by (simp add: run_def)
next
  case (Cons c calls)
  have "k < nextRef (step c s)" if k: "k \<in> dom (tokens_reg (step c s))" for k
  proof (cases "k \<in> dom (tokens_reg s)")
    case True
    then have "k < nextRef s" using Cons.prems by blast
    then show ?thesis using step_registry [of s c] by linarith
  next
    case False
    with k step_registry [of s c] have "k = nextRef s \<and> nextRef s < nextRef (step c s)"
      by (auto split: if_splits)
    then show ?thesis by simp
  qed
  then have "\<forall>k\<in>dom (tokens_reg (step c s)). k < nextRef (step c s)"
    by blast
  then have "\<forall>k\<in>dom (tokens_reg (run calls (step c s))). k < nextRef (run calls (step c s))"
    by (rule Cons.IH)
  then show ?case by (simp add: run_def)
qed


text \<open>
  C10. In every state the engine can reach from its construction, when \<^verbatim>\<open>allocateToken\<close>
  answers that the token was added to the waiting queue, the token is in the waiting queue
  and its id is not a key of the registry; and after any further calls the id still is no
  key of the registry, so that \<^verbatim>\<open>cancelToken\<close> on that id returns the failure "Token not
  found" and changes nothing.
\<close>

theorem queued_token_cannot_be_cancelled:
  assumes "allocateToken patient doctorId preferredTime src (run calls new_engine) = (out, s')"
    and "\<not> r_success out" and "r_token out = Some token"
  shows "token \<in> set (waitingQueue s') \<and>
         (\<forall>later. tokens_reg (run later s') (tid (objs s' token)) = None \<and>
            cancelToken (tid (objs s' token)) (run later s') =
              (Inr \<lparr>r_success = False, r_token = None, r_message = Some ''Token not found'',
                    r_error = None\<rparr>, run later s'))"
proof -
  let ?s = "run calls new_engine"
  obtain res where r: "allocateToken_try patient doctorId preferredTime src ?s = (res, s')"
    using assms(1) by (auto simp: allocateToken_def split: prod.splits sum.splits)
  have out: "res = Inr out"
    using assms(1,3) r by (auto simp: allocateToken_def split: sum.splits)
  then obtain doctor where d: "map_of (doctors ?s) doctorId = Some doctor"
    using r by (cases "map_of (doctors ?s) doctorId") (auto simp: allocateToken_try_def)
  from allocateToken_try_shape [OF r d] out assms(2) obtain s2 where
    h: "same_tokens (snd (new_Token patient doctorId preferredTime src (snd (getSourceConfig src)) ?s)) s2"
       "out = queued_outcome (nextRef ?s)"
       "s' = s2\<lparr>waitingQueue := waitingQueue s2 @ [nextRef ?s]\<rparr>"
    by auto
  have tok: "token = nextRef ?s"
    using h(2) assms(3) by (simp add: queued_outcome_def)
  have ident: "tid (objs s' token) = nextRef ?s"
    using h(1,3) tok by (simp add: same_tokens_def)
  have "\<forall>k\<in>dom (tokens_reg ?s). k < nextRef ?s"
    by (rule run_registry_bounded) (simp add: new_engine_def)
  then have "tokens_reg ?s (nextRef ?s) = None"
    by (cases "tokens_reg ?s (nextRef ?s)") auto
  then have fresh: "tokens_reg s' (nextRef ?s) = None" "nextRef ?s < nextRef s'"
    using h(1,3) by (simp_all add: same_tokens_def)
  have "token \<in> set (waitingQueue s')"
    using h(3) tok by simp
  moreover have "tokens_reg (run later s') (tid (objs s' token)) = None \<and>
            cancelToken (tid (objs s' token)) (run later s') =
              (Inr \<lparr>r_success = False, r_token = None, r_message = Some ''Token not found'',
                    r_error = None\<rparr>, run later s')" for later
    using run_never_registered [OF fresh, of later] by (simp add: ident cancelToken_def)
  ultimately show ?thesis by blast
qed

theorem queued_token_cannot_be_cancelled_witness:
  "fst (allocateToken ''P002'' ''DOC001'' ''20:00'' ''priority'' (run scenario_full new_engine))
     = queued_outcome 10 \<and>
   waitingQueue (snd (allocateToken ''P002'' ''DOC001'' ''20:00'' ''priority'' (run scenario_full new_engine)))
     = [10] \<and>
   tid (objs (snd (allocateToken ''P002'' ''DOC001'' ''20:00'' ''priority'' (run scenario_full new_engine))) 10)
     = 10 \<and>
   cancelToken 10 (snd (allocateToken ''P002'' ''DOC001'' ''20:00'' ''priority'' (run scenario_full new_engine))) =
     (Inr \<lparr>r_success = False, r_token = None, r_message = Some ''Token not found'', r_error = None\<rparr>,
      snd (allocateToken ''P002'' ''DOC001'' ''20:00'' ''priority'' (run scenario_full new_engine)))"
proof -
  let ?a = "allocateToken ''P002'' ''DOC001'' ''20:00'' ''priority'' (run scenario_full new_engine)"
  have o: "fst ?a = queued_outcome 10" by code_simp
  have q: "waitingQueue (snd ?a) = [10]" by code_simp
  have i: "tid (objs (snd ?a) 10) = 10" by code_simp
  have e: "?a = (queued_outcome 10, snd ?a)"
    using o by (simp add: prod_eq_iff)
  have "\<not> r_success (queued_outcome 10)" "r_token (queued_outcome 10) = Some 10"
    by (simp_all add: queued_outcome_def)
  from queued_token_cannot_be_cancelled [OF e this]
  have "cancelToken (tid (objs (snd ?a) 10)) (run [] (snd ?a)) =
     (Inr \<lparr>r_success = False, r_token = None, r_message = Some ''Token not found'', r_error = None\<rparr>,
      run [] (snd ?a))"
    by blast
  with o q i show ?thesis by (simp add: run_def)
qed

subsection \<open>The invariant is kept by every call\<close>

lemma distinct_count_le1: "distinct xs \<longleftrightarrow> (\<forall>a. count (mset xs) a \<le> 1)"
proof (induction xs)
  case Nil
  then show ?case by simp
next
  case (Cons x xs)
  have "x \<notin> set xs \<longleftrightarrow> count (mset xs) x = 0"
    by (simp add: count_eq_zero_iff)
  then show ?case
    using Cons.IH by (auto simp: le_Suc_eq)
qed

lemma distinct_mset_le:
  assumes "mset xs \<subseteq># mset ys" and "distinct ys"
  shows "distinct xs"
proof -
  have "count (mset xs) a \<le> 1" for a
    using mset_subset_eq_count [OF assms(1), of a] assms(2) [unfolded distinct_count_le1]
    by (meson le_trans)
  then show ?thesis by (simp add: distinct_count_le1)
qed

lemma has_doctor_same:
  assumes "same_tokens s s'"
  shows "has_doctor s' r \<longleftrightarrow> has_doctor s r"
proof -
  have "map_of (doctors s') x = None \<longleftrightarrow> map_of (doctors s) x = None" for x
    using assms by (simp only: map_of_None_keys same_tokens_def)
  then show ?thesis
    using assms by (simp add: has_doctor_def same_tokens_def)
qed

lemma engine_inv_transfer:
  assumes inv: "engine_inv s pending"
    and slots: "\<forall>slot\<in>set (all_slots s'). slot_ok slot"
    and ms: "mset (occupants s') + mset pending' \<subseteq># mset (occupants s) + mset pending"
    and q: "set (waitingQueue s') \<subseteq> set (occupants s) \<union> set pending \<union> set (waitingQueue s)"
    and st: "same_tokens s s'"
  shows "engine_inv s' pending'"
proof -
  have "mset (occupants s' @ pending') \<subseteq># mset (occupants s @ pending)"
    using ms by simp
  moreover have "distinct (occupants s @ pending)"
    using inv by (simp add: engine_inv_def)
  ultimately have d: "distinct (occupants s' @ pending')"
    by (rule distinct_mset_le)
  have "set_mset (mset (occupants s') + mset pending') \<subseteq> set_mset (mset (occupants s) + mset pending)"
    using ms by (rule set_mset_mono)
  then have sub: "set (occupants s') \<union> set pending' \<subseteq> set (occupants s) \<union> set pending"
    by simp
  have reg: "tokens_reg s' = tokens_reg s" "nextRef s' = nextRef s"
    using st by (simp_all add: same_tokens_def)
  have "r < nextRef s' \<and> has_doctor s' r"
    if "r \<in> set (occupants s') \<union> set pending' \<union> set (waitingQueue s') \<union> ran (tokens_reg s')" for r
  proof -
    from that sub q reg
    have "r \<in> set (occupants s) \<union> set pending \<union> set (waitingQueue s) \<union> ran (tokens_reg s)"
      by auto
    then have "r < nextRef s \<and> has_doctor s r"
      using inv by (simp add: engine_inv_def)
    then show ?thesis
      by (simp add: reg has_doctor_same [OF st])
  qed
  moreover have "\<forall>r<nextRef s'. tid (objs s' r) = r"
    using inv st by (simp add: engine_inv_def same_tokens_def)
  moreover have "\<forall>k\<in>dom (tokens_reg s'). k < nextRef s'"
    using inv reg by (simp add: engine_inv_def)
  ultimately show ?thesis
    using slots d by (simp add: engine_inv_def)
qed

lemma tryAllocateToSlot_inv:
  assumes inv: "engine_inv s pending" and tok: "token \<in> set pending"
    and run: "tryAllocateToSlot token time s = (res, s')"
  shows "(\<exists>placed. res = Inr placed) \<and>
         (res = Inr False \<longrightarrow> s' = s) \<and>
         (res = Inr True \<longrightarrow>
            (\<exists>ev. waitingQueue s' = waitingQueue s @ ev \<and>
                  engine_inv s' (remove1 token pending @ ev)))"
proof (intro conjI impI)
  have "has_doctor s token"
    using inv tok by (simp add: engine_inv_def)
  then show "\<exists>placed. res = Inr placed"
    using run tryAllocateToSlot_throws [of token time s _ s']
    by (cases res) (auto simp: has_doctor_def)
next
  assume "res = Inr False"
  with run show "s' = s" by (simp add: tryAllocateToSlot_False)
next
  assume "res = Inr True"
  with run have run': "tryAllocateToSlot token time s = (Inr True, s')" by simp
  have ok: "\<forall>slot\<in>set (all_slots s). slot_ok slot"
    and dist: "distinct (occupants s)"
    and ids: "\<forall>r\<in>set (occupants s). tid (objs s r) = r"
    using inv by (simp_all add: engine_inv_def)
  from tryAllocateToSlot_placed [OF run' ok ids dist]
  have ok': "\<forall>slot\<in>set (all_slots s'). slot_ok slot"
    and ms: "mset (occupants s') + mset (waitingQueue s') =
               mset (occupants s) + mset (waitingQueue s) + {#token#}"
    and qq: "waitingQueue s' = waitingQueue s \<or>
             (\<exists>y\<in>set (occupants s). waitingQueue s' = waitingQueue s @ [y])"
    by blast+
  from qq obtain ev where ev: "waitingQueue s' = waitingQueue s @ ev" "set ev \<subseteq> set (occupants s)"
    by (auto intro: that [of "[]"])
  from ms ev(1) have ms': "mset (occupants s') + mset ev = mset (occupants s) + {#token#}"
    by simp
  have p: "mset pending = add_mset token (mset (remove1 token pending))"
    using tok by simp
  have "mset (occupants s') + mset (remove1 token pending @ ev) =
        (mset (occupants s') + mset ev) + mset (remove1 token pending)"
    by simp
  also have "\<dots> = mset (occupants s) + mset pending"
    unfolding ms' by (subst p) simp
  finally have "mset (occupants s') + mset (remove1 token pending @ ev) =
        mset (occupants s) + mset pending" .
  then have sub: "mset (occupants s') + mset (remove1 token pending @ ev)
                    \<subseteq># mset (occupants s) + mset pending"
    by simp
  have q: "set (waitingQueue s') \<subseteq> set (occupants s) \<union> set pending \<union> set (waitingQueue s)"
    using ev by auto
  have "engine_inv s' (remove1 token pending @ ev)"
    using inv ok' sub q tryAllocateToSlot_same_tokens [OF run]
    by (rule engine_inv_transfer)
  with ev(1) show "\<exists>ev. waitingQueue s' = waitingQueue s @ ev \<and>
                  engine_inv s' (remove1 token pending @ ev)"
    by blast
qed


lemma all_slots_frame [simp]:
  "all_slots (s\<lparr>waitingQueue := q\<rparr>) = all_slots s"
  "all_slots (set_slotTime t x s) = all_slots s"
  "all_slots (set_status t y s) = all_slots s"
  "all_slots (register_token t s) = all_slots s"
  "all_slots (snd (new_Token p d tm src prio s)) = all_slots s"
  by (simp_all add: all_slots_def set_slotTime_def set_status_def register_token_def new_Token_def)

lemma occupants_frame [simp]:
  "occupants (s\<lparr>waitingQueue := q\<rparr>) = occupants s"
  "occupants (set_slotTime t x s) = occupants s"
  "occupants (set_status t y s) = occupants s"
  "occupants (register_token t s) = occupants s"
  "occupants (snd (new_Token p d tm src prio s)) = occupants s"
  by (simp_all add: occupants_def)

lemma set_status_frame [simp]:
  "waitingQueue (set_status t x s) = waitingQueue s"
  "doctors (set_status t x s) = doctors s"
  "tokens_reg (set_status t x s) = tokens_reg s"
  "nextRef (set_status t x s) = nextRef s"
  by (simp_all add: set_status_def)

lemma engine_inv_same_slots:
  assumes "engine_inv s pending" and "same_tokens s s'" and "all_slots s' = all_slots s"
    and "waitingQueue s' = waitingQueue s"
  shows "engine_inv s' pending"
proof -
  have occ: "occupants s' = occupants s"
    using assms(3) by (simp add: occupants_def)
  have "\<forall>slot\<in>set (all_slots s'). slot_ok slot"
    using assms(1,3) by (simp add: engine_inv_def)
  moreover have "mset (occupants s') + mset pending \<subseteq># mset (occupants s) + mset pending"
    by (simp add: occ)
  moreover have "set (waitingQueue s') \<subseteq> set (occupants s) \<union> set pending \<union> set (waitingQueue s)"
    using assms(4) by auto
  ultimately show ?thesis
    using assms(1,2) by (intro engine_inv_transfer [OF assms(1)])
qed

lemma visit_inv:
  assumes lt: "i < length (waitingQueue s)"
    and inv: "engine_inv s (st @ drop i (waitingQueue s))"
  shows "(\<exists>s2. visit i s = Placed s2 \<and> engine_inv s2 (st @ drop (Suc i) (waitingQueue s2))) \<or>
         (\<exists>s2. visit i s = Kept s2 \<and>
               engine_inv s2 ((st @ [waitingQueue s ! i]) @ drop (Suc i) (waitingQueue s2)))"
proof -
  let ?t = "waitingQueue s ! i"
  let ?rest = "drop (Suc i) (waitingQueue s)"
  have cut: "drop i (waitingQueue s) = ?t # ?rest"
    using lt by (simp add: Cons_nth_drop_Suc)
  have inv': "engine_inv s (st @ ?t # ?rest)"
    using inv by (simp add: cut)
  have "?t \<in> set (waitingQueue s)"
    using lt by simp
  then have "has_doctor s ?t"
    using inv by (simp add: engine_inv_def)
  then obtain found where f:
    "findAnyAvailableSlot (t_doctorId (objs s ?t)) (priority (objs s ?t)) s = Inr found"
    by (auto simp: has_doctor_def findAnyAvailableSlot_def split: option.splits)
  show ?thesis
  proof (cases "\<exists>x. found = Some x \<and> x \<noteq> []")
    case False
    then have "visit i s = Kept s"
      using f by (cases found) (auto simp: visit_def Let_def)
    with inv' show ?thesis by simp
  next
    case True
    then obtain x where x: "found = Some x" "x \<noteq> []" by blast
    let ?s1 = "set_slotTime ?t x s"
    have inv1: "engine_inv ?s1 (st @ ?t # ?rest)"
      using inv' by (rule engine_inv_same_slots) simp_all
    obtain res s2 where a: "tryAllocateToSlot ?t x ?s1 = (res, s2)"
      by (cases "tryAllocateToSlot ?t x ?s1")
    have v: "visit i s = (case res of Inl e \<Rightarrow> Thrown e s2
                          | Inr placed \<Rightarrow> if placed then Placed s2 else Kept s2)"
      using f x a by (simp add: visit_def Let_def)
    have mem: "?t \<in> set (st @ ?t # ?rest)" by simp
    note step = tryAllocateToSlot_inv [OF inv1 mem a]
    from step obtain placed where r: "res = Inr placed"
      by (elim conjE exE)
    from step have kept: "res = Inr False \<longrightarrow> s2 = ?s1"
      by (elim conjE)
    from step have placed: "res = Inr True \<longrightarrow>
            (\<exists>ev. waitingQueue s2 = waitingQueue ?s1 @ ev \<and>
                  engine_inv s2 (remove1 ?t (st @ ?t # ?rest) @ ev))"
      by (elim conjE)
    show ?thesis
    proof (cases placed)
      case False
      with r kept v have "visit i s = Kept ?s1" by simp
      moreover have "engine_inv ?s1 ((st @ [?t]) @ drop (Suc i) (waitingQueue ?s1))"
        using inv1 by simp
      ultimately show ?thesis by blast
    next
      case True
      with r placed obtain ev where
        ev: "waitingQueue s2 = waitingQueue s @ ev"
            "engine_inv s2 (remove1 ?t (st @ ?t # ?rest) @ ev)"
        by auto
      have "distinct (occupants s @ st @ ?t # ?rest)"
        using inv' by (simp add: engine_inv_def)
      then have "?t \<notin> set st" by simp
      then have "remove1 ?t (st @ ?t # ?rest) = st @ ?rest"
        by (simp add: remove1_append)
      moreover have "drop (Suc i) (waitingQueue s2) = ?rest @ ev"
        using ev(1) lt by simp
      ultimately have "engine_inv s2 (st @ drop (Suc i) (waitingQueue s2))"
        using ev(2) by simp
      moreover have "visit i s = Placed s2"
        using True r v by simp
      ultimately show ?thesis by blast
    qed
  qed
qed

lemma loop_inv:
  assumes "engine_inv s (st @ drop i (waitingQueue s))"
  shows "\<exists>re' st' s'. processWaitingQueue_loop i re st s = (Inr (re', st'), s') \<and>
           engine_inv s' st'"
  using assms
proof (induction i re st s rule: loop_induct)
  case (step i re st s)
  show ?case
  proof (cases "i < length (waitingQueue s)")
    case False
    with step.prems show ?thesis by (simp add: loop_step [of i re st s])
  next
    case True
    from visit_inv [OF True step.prems] show ?thesis
    proof (elim disjE exE conjE)
      fix s2
      assume v: "visit i s = Placed s2" and i2: "engine_inv s2 (st @ drop (Suc i) (waitingQueue s2))"
      from step.IH(1) [OF True v i2] show ?thesis
        using True v by (simp add: loop_step [of i re st s])
    next
      fix s2
      assume v: "visit i s = Kept s2"
        and i2: "engine_inv s2 ((st @ [waitingQueue s ! i]) @ drop (Suc i) (waitingQueue s2))"
      from step.IH(2) [OF True v i2] show ?thesis
        using True v by (simp add: loop_step [of i re st s])
    qed
  qed
qed

text \<open>In a state that satisfies the invariant the replay pass does not throw, and the state
  it leaves satisfies the invariant.\<close>

lemma processWaitingQueue_inv:
  assumes "engine_inv s (waitingQueue s)"
  shows "\<exists>re s'. processWaitingQueue s = (Inr re, s') \<and> engine_inv s' (waitingQueue s')"
proof -
  from loop_inv [of s "[]" 0 "[]"] assms obtain re st s1 where
    l: "processWaitingQueue_loop 0 [] [] s = (Inr (re, st), s1)" and i1: "engine_inv s1 st"
    by auto
  have "\<forall>slot\<in>set (all_slots (s1\<lparr>waitingQueue := st\<rparr>)). slot_ok slot"
    using i1 by (simp add: engine_inv_def)
  moreover have "mset (occupants (s1\<lparr>waitingQueue := st\<rparr>)) + mset st
                   \<subseteq># mset (occupants s1) + mset st"
    by simp
  moreover have "set (waitingQueue (s1\<lparr>waitingQueue := st\<rparr>))
                   \<subseteq> set (occupants s1) \<union> set st \<union> set (waitingQueue s1)"
    by auto
  ultimately have "engine_inv (s1\<lparr>waitingQueue := st\<rparr>) st"
    using same_tokens_queue by (intro engine_inv_transfer [OF i1])
  then show ?thesis
    by (simp add: processWaitingQueue_def l)
qed


lemma new_Token_inv:
  assumes "engine_inv s pending"
  shows "engine_inv (snd (new_Token p d t src prio s)) pending"
proof -
  let ?s1 = "snd (new_Token p d t src prio s)"
  have old: "objs ?s1 r = objs s r" if "r < nextRef s" for r
    using that by simp
  have "r < nextRef ?s1 \<and> has_doctor ?s1 r"
    if "r \<in> set (occupants ?s1) \<union> set pending \<union> set (waitingQueue ?s1) \<union> ran (tokens_reg ?s1)"
    for r
  proof -
    from that assms have "r < nextRef s \<and> has_doctor s r"
      by (simp add: engine_inv_def)
    then show ?thesis
      by (simp add: has_doctor_def old)
  qed
  moreover have "tid (objs ?s1 r) = r" if "r < nextRef ?s1" for r
  proof (cases "r = nextRef s")
    case True
    then show ?thesis by simp
  next
    case False
    with that have "r < nextRef s" by simp
    then show ?thesis using assms by (simp add: engine_inv_def old)
  qed
  moreover have "\<forall>k\<in>dom (tokens_reg ?s1). k < nextRef ?s1"
    using assms by (auto simp: engine_inv_def less_Suc_eq)
  ultimately show ?thesis
    using assms by (simp add: engine_inv_def)
qed

lemma new_Token_pending:
  assumes inv: "engine_inv s (waitingQueue s)" and d: "map_of (doctors s) d = Some doctor"
  shows "engine_inv (snd (new_Token p d t src prio s))
           (nextRef s # waitingQueue (snd (new_Token p d t src prio s)))"
proof -
  let ?s1 = "snd (new_Token p d t src prio s)"
  have i1: "engine_inv ?s1 (waitingQueue s)"
    using inv by (rule new_Token_inv)
  have "\<forall>r\<in>set (occupants s @ waitingQueue s). r < nextRef s"
    using inv by (simp add: engine_inv_def)
  then have fresh: "nextRef s \<notin> set (occupants s @ waitingQueue s)"
    by blast
  have "has_doctor ?s1 (nextRef s)"
    using d by (simp add: has_doctor_def)
  then show ?thesis
    using i1 fresh by (simp add: engine_inv_def)
qed

lemma engine_inv_register:
  assumes inv: "engine_inv s pending" and lt: "token < nextRef s" and hd: "has_doctor s token"
  shows "engine_inv (register_token token s) pending"
proof -
  let ?s' = "register_token token s"
  have key: "tid (objs s token) = token"
    using inv lt by (simp add: engine_inv_def)
  have reg: "tokens_reg ?s' = (tokens_reg s)(token \<mapsto> token)"
    by (simp add: register_token_def key)
  have frame: "doctors ?s' = doctors s" "objs ?s' = objs s" "nextRef ?s' = nextRef s"
    "waitingQueue ?s' = waitingQueue s"
    by (simp_all add: register_token_def)
  have "ran (tokens_reg ?s') \<subseteq> insert token (ran (tokens_reg s))"
    unfolding reg by (auto simp: ran_def)
  then have "r < nextRef ?s' \<and> has_doctor ?s' r"
    if "r \<in> set (occupants ?s') \<union> set pending \<union> set (waitingQueue ?s') \<union> ran (tokens_reg ?s')"
    for r
    using that inv lt hd by (auto simp: engine_inv_def frame has_doctor_def)
  moreover have "\<forall>k\<in>dom (tokens_reg ?s'). k < nextRef ?s'"
    using inv lt by (auto simp: engine_inv_def reg frame)
  ultimately show ?thesis
    using inv by (simp add: engine_inv_def frame)
qed

lemma engine_inv_enqueue:
  assumes "engine_inv s (token # waitingQueue s)"
  shows "engine_inv (s\<lparr>waitingQueue := waitingQueue s @ [token]\<rparr>) (waitingQueue s @ [token])"
proof -
  let ?s' = "s\<lparr>waitingQueue := waitingQueue s @ [token]\<rparr>"
  have "\<forall>slot\<in>set (all_slots ?s'). slot_ok slot"
    using assms by (simp add: engine_inv_def)
  moreover have "mset (occupants ?s') + mset (waitingQueue s @ [token])
                   \<subseteq># mset (occupants s) + mset (token # waitingQueue s)"
    by simp
  moreover have "set (waitingQueue ?s')
                   \<subseteq> set (occupants s) \<union> set (token # waitingQueue s) \<union> set (waitingQueue s)"
    by auto
  ultimately show ?thesis
    using same_tokens_queue by (intro engine_inv_transfer [OF assms])
qed

text \<open>A successful placement of a pending token that is not in the queue leaves a state
  whose own queue satisfies the invariant.\<close>

lemma tryAllocateToSlot_new_inv:
  assumes inv: "engine_inv s (token # waitingQueue s)"
    and run: "tryAllocateToSlot token time s = (res, s')"
  shows "(res = Inr True \<and> engine_inv s' (waitingQueue s') \<and> token < nextRef s' \<and>
          has_doctor s' token) \<or>
         (res = Inr False \<and> s' = s)"
proof -
  have mem: "token \<in> set (token # waitingQueue s)" by simp
  note step = tryAllocateToSlot_inv [OF inv mem run]
  from step obtain placed where r: "res = Inr placed"
    by (elim conjE exE)
  show ?thesis
  proof (cases placed)
    case False
    with r step show ?thesis by simp
  next
    case True
    with r step obtain ev where
      ev: "waitingQueue s' = waitingQueue s @ ev" "engine_inv s' (waitingQueue s @ ev)"
      by auto
    have st: "same_tokens s s'"
      using run by (rule tryAllocateToSlot_same_tokens)
    have "token < nextRef s \<and> has_doctor s token"
      using inv by (simp add: engine_inv_def)
    then have "token < nextRef s' \<and> has_doctor s' token"
      using st has_doctor_same [OF st] by (simp add: same_tokens_def)
    with True r ev show ?thesis by simp
  qed
qed


lemma allocateToken_inv:
  assumes inv: "engine_inv s (waitingQueue s)"
  shows "engine_inv (snd (allocateToken p d t src s))
           (waitingQueue (snd (allocateToken p d t src s)))"
proof (cases "map_of (doctors s) d")
  case None
  then have "snd (allocateToken p d t src s) = s"
    by (simp add: allocateToken_def allocateToken_try_def)
  with inv show ?thesis by simp
next
  case (Some doctor)
  let ?prio = "snd (getSourceConfig src)"
  let ?tok = "nextRef s"
  let ?s1 = "snd (new_Token p d t src ?prio s)"
  obtain res s' where r: "allocateToken_try p d t src s = (res, s')"
    by (cases "allocateToken_try p d t src s")
  have fin: "snd (allocateToken p d t src s) = s'"
    using r by (simp add: allocateToken_def split: sum.splits)
  have inv1: "engine_inv ?s1 (?tok # waitingQueue ?s1)"
    using inv Some by (rule new_Token_pending)
  obtain r1 s2 where a1: "tryAllocateToSlot ?tok t ?s1 = (r1, s2)"
    by (cases "tryAllocateToSlot ?tok t ?s1")
  from tryAllocateToSlot_new_inv [OF inv1 a1]
  have "engine_inv s' (waitingQueue s')"
  proof
    assume h: "r1 = Inr True \<and> engine_inv s2 (waitingQueue s2) \<and> ?tok < nextRef s2 \<and>
               has_doctor s2 ?tok"
    then have "s' = register_token ?tok s2"
      using r Some a1 by (simp add: allocateToken_try_def split_beta Let_def)
    moreover have "engine_inv (register_token ?tok s2) (waitingQueue s2)"
      using h by (intro engine_inv_register) simp_all
    ultimately show ?thesis by (simp add: register_token_def)
  next
    assume h: "r1 = Inr False \<and> s2 = ?s1"
    have "\<exists>alt. findAlternativeSlot d t ?prio ?s1 = Inr alt"
      using Some by (simp add: findAlternativeSlot_def)
    then obtain alt where f: "findAlternativeSlot d t ?prio ?s1 = Inr alt" by blast
    show ?thesis
    proof (cases "\<exists>x. alt = Some x \<and> x \<noteq> []")
      case False
      then have "s' = ?s1\<lparr>waitingQueue := waitingQueue ?s1 @ [?tok]\<rparr>"
        using r Some a1 h f
        by (cases alt) (simp_all add: allocateToken_try_def split_beta Let_def)
      with engine_inv_enqueue [OF inv1] show ?thesis by simp
    next
      case True
      then obtain x where x: "alt = Some x" "x \<noteq> []" by blast
      let ?s3 = "set_slotTime ?tok x ?s1"
      have inv3: "engine_inv ?s3 (?tok # waitingQueue ?s3)"
        using engine_inv_same_slots [OF inv1, of ?s3] by simp
      obtain r3 s4 where a3: "tryAllocateToSlot ?tok x ?s3 = (r3, s4)"
        by (cases "tryAllocateToSlot ?tok x ?s3")
      from tryAllocateToSlot_new_inv [OF inv3 a3] show ?thesis
      proof
        assume h3: "r3 = Inr True \<and> engine_inv s4 (waitingQueue s4) \<and> ?tok < nextRef s4 \<and>
                    has_doctor s4 ?tok"
        then have "s' = register_token ?tok s4"
          using r Some a1 h f x a3 by (simp add: allocateToken_try_def split_beta Let_def)
        moreover have "engine_inv (register_token ?tok s4) (waitingQueue s4)"
          using h3 by (intro engine_inv_register) simp_all
        ultimately show ?thesis by (simp add: register_token_def)
      next
        assume h3: "r3 = Inr False \<and> s4 = ?s3"
        then have "s' = ?s3\<lparr>waitingQueue := waitingQueue ?s3 @ [?tok]\<rparr>"
          using r Some a1 h f x a3 by (simp add: allocateToken_try_def split_beta Let_def)
        with engine_inv_enqueue [OF inv3] show ?thesis by simp
      qed
    qed
  qed
  with fin show ?thesis by simp
qed

lemma insertEmergencyToken_inv:
  assumes inv: "engine_inv s (waitingQueue s)"
  shows "engine_inv (snd (insertEmergencyToken p d t s))
           (waitingQueue (snd (insertEmergencyToken p d t s)))"
proof -
  let ?tok = "nextRef s"
  let ?s1 = "snd (new_Token p d t ''emergency'' 10 s)"
  have i1: "engine_inv ?s1 (waitingQueue ?s1)"
    using new_Token_inv [OF inv] by simp
  obtain r1 s2 where a1: "tryAllocateToSlot ?tok t ?s1 = (r1, s2)"
    by (cases "tryAllocateToSlot ?tok t ?s1")
  show ?thesis
  proof (cases "map_of (doctors s) d")
    case None
    then have "tryAllocateToSlot ?tok t ?s1 = (Inl TypeError, ?s1)"
      by (simp add: tryAllocateToSlot_def)
    then have "snd (insertEmergencyToken p d t s) = ?s1"
      by (simp add: insertEmergencyToken_def split_beta)
    with i1 show ?thesis by simp
  next
    case (Some doctor)
    have inv1: "engine_inv ?s1 (?tok # waitingQueue ?s1)"
      using inv Some by (rule new_Token_pending)
    from tryAllocateToSlot_new_inv [OF inv1 a1] show ?thesis
    proof
      assume h: "r1 = Inr True \<and> engine_inv s2 (waitingQueue s2) \<and> ?tok < nextRef s2 \<and>
                 has_doctor s2 ?tok"
      let ?s3 = "register_token ?tok s2"
      have "engine_inv ?s3 (waitingQueue s2)"
        using h by (intro engine_inv_register) simp_all
      then have "engine_inv ?s3 (waitingQueue ?s3)"
        by (simp add: register_token_def)
      from processWaitingQueue_inv [OF this] obtain re s4 where
        p: "processWaitingQueue ?s3 = (Inr re, s4)" "engine_inv s4 (waitingQueue s4)"
        by blast
      have "snd (insertEmergencyToken p d t s) = s4"
        using a1 h p(1) by (simp add: insertEmergencyToken_def split_beta)
      with p(2) show ?thesis by simp
    next
      assume h: "r1 = Inr False \<and> s2 = ?s1"
      then have "snd (insertEmergencyToken p d t s) = ?s1"
        using a1 by (simp add: insertEmergencyToken_def split_beta)
      with i1 show ?thesis by simp
    qed
  qed
qed


text \<open>For a doctor that is registered, in a state that satisfies the invariant,
  \<^verbatim>\<open>insertEmergencyToken\<close> does return an outcome.\<close>

lemma insertEmergencyToken_returns:
  assumes inv: "engine_inv s (waitingQueue s)" and d: "map_of (doctors s) d = Some doctor"
  shows "\<exists>out. fst (insertEmergencyToken p d t s) = Inr out"
proof -
  let ?tok = "nextRef s"
  let ?s1 = "snd (new_Token p d t ''emergency'' 10 s)"
  obtain r1 s2 where a1: "tryAllocateToSlot ?tok t ?s1 = (r1, s2)"
    by (cases "tryAllocateToSlot ?tok t ?s1")
  have inv1: "engine_inv ?s1 (?tok # waitingQueue ?s1)"
    using inv d by (rule new_Token_pending)
  from tryAllocateToSlot_new_inv [OF inv1 a1] show ?thesis
  proof
    assume h: "r1 = Inr True \<and> engine_inv s2 (waitingQueue s2) \<and> ?tok < nextRef s2 \<and>
               has_doctor s2 ?tok"
    let ?s3 = "register_token ?tok s2"
    have "engine_inv ?s3 (waitingQueue s2)"
      using h by (intro engine_inv_register) simp_all
    then have "engine_inv ?s3 (waitingQueue ?s3)"
      by (simp add: register_token_def)
    from processWaitingQueue_inv [OF this] obtain re s4 where
      "processWaitingQueue ?s3 = (Inr re, s4)"
      by blast
    then show ?thesis
      using a1 h by (simp add: insertEmergencyToken_def split_beta)
  next
    assume "r1 = Inr False \<and> s2 = ?s1"
    then show ?thesis
      using a1 by (simp add: insertEmergencyToken_def split_beta)
  qed
qed

lemma findIndex_Some:
  "findIndex p xs = Some i \<Longrightarrow> i < length xs"
  by (induction xs arbitrary: i) (auto split: if_splits option.splits)

lemma mset_delete_nth:
  assumes "i < length xs"
  shows "mset (take i xs @ drop (Suc i) xs) + {#xs ! i#} = mset xs"
proof -
  have "xs = take i xs @ xs ! i # drop (Suc i) xs"
    using assms by (rule id_take_nth_drop)
  then have "mset xs = mset (take i xs @ xs ! i # drop (Suc i) xs)"
    by simp
  then show ?thesis by simp
qed

lemma removeToken_slot:
  assumes "slot_ok slot"
  shows "slot_ok (snd (removeToken heap tokenId slot)) \<and>
         mset (tokens (snd (removeToken heap tokenId slot))) \<subseteq># mset (tokens slot)"
proof (cases "findIndex (\<lambda>t. tid (heap t) = tokenId) (tokens slot)")
  case None
  with assms show ?thesis by (simp add: removeToken_def)
next
  case (Some i)
  then have lt: "i < length (tokens slot)" by (rule findIndex_Some)
  have "mset (take i (tokens slot) @ drop (Suc i) (tokens slot)) \<subseteq># mset (tokens slot)"
    using mset_delete_nth [OF lt] by (metis mset_subset_eq_add_left)
  moreover have "slot_ok (slot\<lparr>tokens := take i (tokens slot) @ drop (Suc i) (tokens slot),
                       availableCapacity := availableCapacity slot + 1\<rparr>)"
    using assms lt by (auto simp: slot_ok_def)
  ultimately show ?thesis
    using Some by (simp add: removeToken_def)
qed

lemma cancelToken_inv:
  assumes inv: "engine_inv s (waitingQueue s)"
  shows "engine_inv (snd (cancelToken tokenId s)) (waitingQueue (snd (cancelToken tokenId s)))"
proof (cases "tokens_reg s tokenId")
  case None
  then have "snd (cancelToken tokenId s) = s" by (simp add: cancelToken_def)
  with inv show ?thesis by simp
next
  case (Some token)
  then have "token \<in> ran (tokens_reg s)" by (auto simp: ran_def)
  then have "has_doctor s token"
    using inv by (simp add: engine_inv_def)
  then obtain doctor where d: "map_of (doctors s) (t_doctorId (objs s token)) = Some doctor"
    by (auto simp: has_doctor_def)
  let ?d = "t_doctorId (objs s token)"
  let ?k = "slotKeyOf ?d (slotTime (objs s token))"
  let ?s1 = "case map_of (slots doctor) ?k of
               Some slot \<Rightarrow> store_slot ?d ?k (snd (removeToken (objs s) tokenId slot)) s
             | None \<Rightarrow> s"
  have i1: "engine_inv ?s1 (waitingQueue ?s1)"
  proof (cases "map_of (slots doctor) ?k")
    case None
    with inv show ?thesis by simp
  next
    case (Some slot)
    let ?slot' = "snd (removeToken (objs s) tokenId slot)"
    let ?s' = "store_slot ?d ?k ?slot' s"
    from store_slot_split [OF d Some, of ?slot'] obtain pre post where
      sp: "all_slots s = pre @ slot # post" "all_slots ?s' = pre @ ?slot' # post"
      by blast
    have ok: "\<forall>sl\<in>set (all_slots s). slot_ok sl"
      using inv by (simp add: engine_inv_def)
    then have "slot_ok slot" using sp(1) by simp
    from removeToken_slot [OF this, of "objs s" tokenId]
    have rm: "slot_ok ?slot'" "mset (tokens ?slot') \<subseteq># mset (tokens slot)"
      by simp_all
    have "\<forall>sl\<in>set (all_slots ?s'). slot_ok sl"
      using ok rm(1) sp by auto
    moreover have "mset (occupants ?s') + mset (waitingQueue s)
                     \<subseteq># mset (occupants s) + mset (waitingQueue s)"
      using rm(2) by (simp add: occupants_split [OF sp(1)] occupants_split [OF sp(2)])
    moreover have "set (waitingQueue ?s')
                     \<subseteq> set (occupants s) \<union> set (waitingQueue s) \<union> set (waitingQueue s)"
      by simp
    ultimately have "engine_inv ?s' (waitingQueue s)"
      using same_tokens_store_slot by (intro engine_inv_transfer [OF inv])
    then show ?thesis by (simp add: Some)
  qed
  let ?s2 = "set_status token CANCELLED ?s1"
  have "engine_inv ?s2 (waitingQueue ?s1)"
    using i1 by (rule engine_inv_same_slots) simp_all
  then have "engine_inv ?s2 (waitingQueue ?s2)" by simp
  from processWaitingQueue_inv [OF this] obtain re s3 where
    p: "processWaitingQueue ?s2 = (Inr re, s3)" "engine_inv s3 (waitingQueue s3)"
    by blast
  have "snd (cancelToken tokenId s) = s3"
    using Some d p(1) by (simp add: cancelToken_def Let_def)
  with p(2) show ?thesis by simp
qed


lemma map_of_map_set: "map_of (map_set m k v) = (map_of m)(k \<mapsto> v)"
  by (induction m) (auto simp: fun_eq_iff)

lemma map_set_values:
  "(a, b) \<in> set (map_set m k v) \<Longrightarrow> b = v \<or> (a, b) \<in> set m"
  by (induction m) (auto split: if_splits)

lemma initializeDoctorSlots_loop_slots:
  assumes "\<And>a sl. (a, sl) \<in> set (slots doctor) \<Longrightarrow> P sl" and "\<And>a b c. P (new_Slot a b c)"
    and "(k, slot) \<in> set (slots (initializeDoctorSlots_loop hour endHour doctor))"
  shows "P slot"
  using assms(1,3)
proof (induction hour endHour doctor rule: initializeDoctorSlots_loop.induct)
  case (1 hour endHour doctor)
  show ?case
  proof (cases "hour < endHour")
    case False
    with "1.prems" show ?thesis
      by (simp add: initializeDoctorSlots_loop.simps [of hour endHour doctor])
  next
    case True
    let ?start = "padStart2 (js_toString (Some hour)) @ '':00''"
    let ?finish = "padStart2 (js_toString (Some (hour + 1))) @ '':00''"
    let ?key = "slotKeyOf (d_id doctor) ?start"
    let ?slot = "new_Slot (d_id doctor) ?start ?finish"
    let ?doctor' = "doctor\<lparr>slots := map_set (slots doctor) ?key ?slot\<rparr>"
    have old: "P sl" if "(a, sl) \<in> set (slots ?doctor')" for a sl
    proof -
      from that have "sl = ?slot \<or> (a, sl) \<in> set (slots doctor)"
        using map_set_values [of a sl "slots doctor" ?key ?slot] by simp
      then show ?thesis
        using "1.prems"(1) assms(2) by blast
    qed
    have "(k, slot) \<in> set (slots (initializeDoctorSlots_loop (hour + 1) endHour ?doctor'))"
      using "1.prems"(2) True
      by (simp add: initializeDoctorSlots_loop.simps [of hour endHour doctor] Let_def)
    from "1.IH" [OF True refl refl refl refl old this] show ?thesis .
  qed
qed

lemma initializeDoctorSlots_new:
  assumes "(k, slot) \<in> set (slots (initializeDoctorSlots (new_Doctor ident name spec hours)))"
  shows "slot_ok slot \<and> tokens slot = []"
proof -
  let ?doctor = "new_Doctor ident name spec hours"
  have empty: "slots ?doctor = []"
    by (simp add: new_Doctor_def)
  have fresh: "slot_ok (new_Slot a b c) \<and> tokens (new_Slot a b c) = []" for a b c
    by (simp add: new_Slot_def slot_ok_def)
  show ?thesis
  proof (cases "parseInt (split_colon_first (wh_start (workingHours ?doctor)))")
    case None
    with assms empty show ?thesis by (simp add: initializeDoctorSlots_def)
  next
    case (Some startHour)
    show ?thesis
    proof (cases "parseInt (split_colon_first (wh_end (workingHours ?doctor)))")
      case None
      with Some assms empty show ?thesis by (simp add: initializeDoctorSlots_def)
    next
      case (Some endHour)
      with \<open>parseInt (split_colon_first (wh_start (workingHours ?doctor))) = Some startHour\<close> assms
      have "(k, slot) \<in> set (slots (initializeDoctorSlots_loop startHour endHour ?doctor))"
        by (simp add: initializeDoctorSlots_def)
      then show ?thesis
        using initializeDoctorSlots_loop_slots
          [where P = "\<lambda>sl. slot_ok sl \<and> tokens sl = []" and doctor = ?doctor] empty fresh
        by (metis empty_iff list.set(1))
    qed
  qed
qed


lemma concat_tokens_empty:
  assumes "\<forall>sl\<in>set xs. tokens sl = []"
  shows "concat (map tokens xs) = []"
  using assms by (induction xs) auto

lemma addDoctor_inv:
  assumes inv: "engine_inv s (waitingQueue s)"
  shows "engine_inv (addDoctor (new_Doctor ident name spec hours) s)
           (waitingQueue (addDoctor (new_Doctor ident name spec hours) s))"
proof -
  let ?nd = "initializeDoctorSlots (new_Doctor ident name spec hours)"
  let ?s' = "s\<lparr>doctors := map_set (doctors s) ident ?nd\<rparr>"
  let ?f = "\<lambda>entry. map snd (slots (snd entry))"
  let ?new = "map snd (slots ?nd)"
  have s': "addDoctor (new_Doctor ident name spec hours) s = ?s'"
    by (simp add: addDoctor_def new_Doctor_def)
  have new: "slot_ok sl \<and> tokens sl = []" if "sl \<in> set ?new" for sl
    using that initializeDoctorSlots_new [of _ sl ident name spec hours] by auto
  then have new_occ: "concat (map tokens ?new) = []"
    by (intro concat_tokens_empty) blast
  have "\<exists>a b old. all_slots s = a @ old @ b \<and> all_slots ?s' = a @ ?new @ b"
  proof (cases "map_of (doctors s) ident")
    case None
    then have "doctors ?s' = doctors s @ [(ident, ?nd)]"
      by (simp add: map_set_new)
    then have "all_slots s = all_slots s @ [] @ [] \<and> all_slots ?s' = all_slots s @ ?new @ []"
      by (simp add: all_slots_def)
    then show ?thesis by blast
  next
    case (Some old)
    from map_set_split [OF Some, of ?nd] obtain pre post where
      "doctors s = pre @ (ident, old) # post" "doctors ?s' = pre @ (ident, ?nd) # post"
      by auto
    then have "all_slots s = concat (map ?f pre) @ map snd (slots old) @ concat (map ?f post) \<and>
               all_slots ?s' = concat (map ?f pre) @ ?new @ concat (map ?f post)"
      by (simp add: all_slots_def)
    then show ?thesis by blast
  qed
  then obtain a b old where
    sp: "all_slots s = a @ old @ b" "all_slots ?s' = a @ ?new @ b"
    by blast
  have ok: "\<forall>sl\<in>set (all_slots ?s'). slot_ok sl"
    using inv new sp by (auto simp: engine_inv_def)
  have occ: "occupants s = concat (map tokens a) @ concat (map tokens old) @ concat (map tokens b)"
    "occupants ?s' = concat (map tokens a) @ concat (map tokens b)"
    using sp new_occ by (simp_all add: occupants_def)
  have "mset (occupants ?s' @ waitingQueue s) \<subseteq># mset (occupants s @ waitingQueue s)"
    by (simp add: occ)
  moreover have "distinct (occupants s @ waitingQueue s)"
    using inv by (simp add: engine_inv_def)
  ultimately have dist: "distinct (occupants ?s' @ waitingQueue s)"
    by (rule distinct_mset_le)
  have hd: "has_doctor ?s' r" if "has_doctor s r" for r
    using that by (simp add: has_doctor_def map_of_map_set)
  have "set (occupants ?s') \<subseteq> set (occupants s)"
    by (auto simp: occ)
  then have "r < nextRef ?s' \<and> has_doctor ?s' r"
    if "r \<in> set (occupants ?s') \<union> set (waitingQueue s) \<union> set (waitingQueue ?s') \<union> ran (tokens_reg ?s')"
    for r
  proof -
    from that \<open>set (occupants ?s') \<subseteq> set (occupants s)\<close>
    have "r \<in> set (occupants s) \<union> set (waitingQueue s) \<union> set (waitingQueue s) \<union> ran (tokens_reg s)"
      by auto
    then have "r < nextRef s \<and> has_doctor s r"
      using inv by (simp add: engine_inv_def)
    then show ?thesis using hd by simp
  qed
  then have "engine_inv ?s' (waitingQueue s)"
    using inv ok dist by (simp add: engine_inv_def)
  then show ?thesis by (simp add: s')
qed

lemma new_engine_inv: "engine_inv new_engine (waitingQueue new_engine)"
  by (simp add: engine_inv_def new_engine_def all_slots_def occupants_def)

lemma step_inv:
  assumes "engine_inv s (waitingQueue s)"
  shows "engine_inv (step c s) (waitingQueue (step c s))"
proof (cases c)
  case (AddDoctor ident name spec hours)
  with assms show ?thesis by (simp add: addDoctor_inv)
next
  case (AllocateToken p d t src)
  with assms show ?thesis by (simp add: allocateToken_inv)
next
  case (InsertEmergencyToken p d t)
  with assms show ?thesis by (simp add: insertEmergencyToken_inv)
next
  case (CancelToken tokenId)
  with assms show ?thesis by (simp add: cancelToken_inv)
next
  case ProcessWaitingQueue
  from processWaitingQueue_inv [OF assms] ProcessWaitingQueue show ?thesis by auto
qed

lemma run_inv:
  assumes "engine_inv s (waitingQueue s)"
  shows "engine_inv (run calls s) (waitingQueue (run calls s))"
  using assms
proof (induction calls arbitrary: s)
  case Nil
  then show ?case by (simp add: run_def)
next
  case (Cons c calls)
  from Cons.IH [OF step_inv [OF Cons.prems]] show ?case by (simp add: run_def)
qed

text \<open>
  C6. In every state the engine reaches from its construction by any sequence of calls of
  \<^verbatim>\<open>addDoctor\<close> (with a newly constructed Doctor), \<^verbatim>\<open>allocateToken\<close>,
  \<^verbatim>\<open>insertEmergencyToken\<close>, \<^verbatim>\<open>cancelToken\<close> and \<^verbatim>\<open>processWaitingQueue\<close>, every slot has at
  most 10 occupants, capacity 10, a stored \<^verbatim>\<open>availableCapacity\<close> equal to the capacity minus
  the number of occupants, and occupants with pairwise different ids.
\<close>

theorem reachable_slots_consistent:
  assumes "slot \<in> set (all_slots (run calls new_engine))"
  shows "length (tokens slot) \<le> 10 \<and> maxCapacity slot = 10 \<and>
         availableCapacity slot = maxCapacity slot - int (length (tokens slot)) \<and>
         distinct (map (\<lambda>t. tid (objs (run calls new_engine) t)) (tokens slot))"
proof -
  let ?s = "run calls new_engine"
  have inv: "engine_inv ?s (waitingQueue ?s)"
    using new_engine_inv by (rule run_inv)
  then have "slot_ok slot"
    using assms by (simp add: engine_inv_def)
  moreover have "distinct (map (\<lambda>t. tid (objs ?s t)) (tokens slot))"
  proof -
    from assms obtain a b where "all_slots ?s = a @ slot # b"
      by (auto simp: in_set_conv_decomp)
    then have occ: "occupants ?s = concat (map tokens a) @ tokens slot @ concat (map tokens b)"
      by (rule occupants_split)
    have "distinct (occupants ?s)"
      using inv by (simp add: engine_inv_def)
    then have d: "distinct (tokens slot)" by (simp add: occ)
    have "\<forall>r\<in>set (tokens slot). tid (objs ?s r) = r"
      using inv by (auto simp: engine_inv_def occ)
    then have "map (\<lambda>t. tid (objs ?s t)) (tokens slot) = tokens slot"
      by (simp add: map_idI)
    with d show ?thesis by simp
  qed
  ultimately show ?thesis by (simp add: slot_ok_def)
qed


theorem reachable_slots_consistent_witness:
  "all_slots (run scenario_preempted new_engine) ! 0 \<in> set (all_slots (run scenario_preempted new_engine)) \<and>
   tokens (all_slots (run scenario_preempted new_engine) ! 0) = [1, 2, 3, 4, 5, 6, 7, 8, 9, 10] \<and>
   maxCapacity (all_slots (run scenario_preempted new_engine) ! 0) = 10 \<and>
   availableCapacity (all_slots (run scenario_preempted new_engine) ! 0) = 0 \<and>
   distinct (map (\<lambda>t. tid (objs (run scenario_preempted new_engine) t))
      (tokens (all_slots (run scenario_preempted new_engine) ! 0)))"
proof -
  let ?s = "run scenario_preempted new_engine"
  have "length (all_slots ?s) = 2" by code_simp
  then have m: "all_slots ?s ! 0 \<in> set (all_slots ?s)" by simp
  have t: "tokens (all_slots ?s ! 0) = [1, 2, 3, 4, 5, 6, 7, 8, 9, 10]" by code_simp
  from reachable_slots_consistent [OF m] m t show ?thesis by simp
qed

end
